theory Spec2Isabelle
  imports Complex_Main "HOL-Library.Word"
begin


section \<open>DraftNote (src/App.tsx): strings\<close>

text \<open>
  A JavaScript string is a sequence of 16-bit code units. \<open>js\<close> turns an ASCII literal
  into such a string.
\<close>

type_synonym code_unit = "16 word"
type_synonym jsstring = "code_unit list"

definition js :: "string \<Rightarrow> jsstring" where
  "js s = map (\<lambda>c. word_of_nat (of_char c)) s"

text \<open>
  The code units that \<open>String.prototype.trim\<close> removes: ECMAScript WhiteSpace
  (TAB, VT, FF, SP, NBSP, ZWNBSP and the Unicode space separators) and LineTerminator
  (LF, CR, LS, PS). U+200B, the zero-width space, is not among them.
\<close>

definition is_whitespace :: "code_unit \<Rightarrow> bool" where
  "is_whitespace c \<longleftrightarrow>
     c = 0x0009 \<or> c = 0x000A \<or> c = 0x000B \<or> c = 0x000C \<or> c = 0x000D \<or> c = 0x0020 \<or>
     c = 0x00A0 \<or> c = 0x1680 \<or> (0x2000 \<le> c \<and> c \<le> 0x200A) \<or> c = 0x2028 \<or>
     c = 0x2029 \<or> c = 0x202F \<or> c = 0x205F \<or> c = 0x3000 \<or> c = 0xFEFF"

definition trim :: "jsstring \<Rightarrow> jsstring" where
  "trim s = rev (dropWhile is_whitespace (rev (dropWhile is_whitespace s)))"

text \<open>
  \<open>s.split(sep)\<close> for a one-unit separator: the pieces between the separators, empty
  pieces kept; the empty string gives one empty piece.
\<close>

fun split :: "code_unit \<Rightarrow> jsstring \<Rightarrow> jsstring list" where
  "split sep [] = [[]]"
| "split sep (c # cs) =
     (if c = sep then [] # split sep cs
      else (case split sep cs of
              [] \<Rightarrow> [[c]]
            | l # ls \<Rightarrow> (c # l) # ls))"

definition startsWith :: "jsstring \<Rightarrow> jsstring \<Rightarrow> bool" where
  "startsWith s p \<longleftrightarrow> take (length p) s = p"

definition LF :: code_unit where
  "LF = 0x000A"

definition COMMA :: code_unit where
  "COMMA = 0x002C"

subsection \<open>atob\<close>

text \<open>
  \<open>atob\<close> is the forgiving-base64 decoder of the HTML standard: ASCII whitespace is
  removed, one or two padding signs are removed when the length is a multiple of four,
  a length of 1 modulo 4 or a unit outside the alphabet fails (the browser throws
  InvalidCharacterError, here \<open>None\<close>), and the units are decoded six bits each.
\<close>

definition is_ascii_whitespace :: "code_unit \<Rightarrow> bool" where
  "is_ascii_whitespace c \<longleftrightarrow> c = 0x09 \<or> c = 0x0A \<or> c = 0x0C \<or> c = 0x0D \<or> c = 0x20"

definition b64_value :: "code_unit \<Rightarrow> nat option" where
  "b64_value c =
     (let n = unat c in
      if 65 \<le> n \<and> n \<le> 90 then Some (n - 65)
      else if 97 \<le> n \<and> n \<le> 122 then Some (n - 71)
      else if 48 \<le> n \<and> n \<le> 57 then Some (n + 4)
      else if n = 43 then Some 62
      else if n = 47 then Some 63
      else None)"

fun b64_bytes :: "nat list \<Rightarrow> nat list" where
  "b64_bytes (a # b # c # d # r) =
     (a * 4 + b div 16) # ((b mod 16) * 16 + c div 4) # ((c mod 4) * 64 + d) # b64_bytes r"
| "b64_bytes [a, b, c] = [a * 4 + b div 16, (b mod 16) * 16 + c div 4]"
| "b64_bytes [a, b] = [a * 4 + b div 16]"
| "b64_bytes _ = []"

definition strip_padding :: "jsstring \<Rightarrow> jsstring" where
  "strip_padding s =
     (if length s mod 4 = 0 then
        (if 2 \<le> length s \<and> last s = 0x3D \<and> last (butlast s) = 0x3D then butlast (butlast s)
         else if 1 \<le> length s \<and> last s = 0x3D then butlast s
         else s)
      else s)"

definition atob :: "jsstring \<Rightarrow> jsstring option" where
  "atob s =
     (let d = strip_padding (filter (\<lambda>c. \<not> is_ascii_whitespace c) s) in
      if length d mod 4 = 1 then None
      else if \<exists>c \<in> set d. b64_value c = None then None
      else Some (map word_of_nat (b64_bytes (map (\<lambda>c. the (b64_value c)) d))))"

section \<open>The content tree that the export walks\<close>

text \<open>
  \<open>tempDiv.innerHTML = content.htmlContent\<close> has the browser parse the snapshot; the
  export then walks \<open>tempDiv.childNodes\<close>. A node is a text node, an element, or a node
  of another type (a comment), which \<open>processNode\<close> ignores. An element carries what
  the export reads of it: \<open>tagName\<close>, its attributes, its children and, for an
  \<open>HTMLImageElement\<close>, the four size properties (\<open>unsigned long\<close> in the DOM;
  0 where the browser has none).
\<close>

record img_metrics =
  naturalWidth :: "32 word"
  width :: "32 word"
  naturalHeight :: "32 word"
  height :: "32 word"

datatype node =
    TextNode jsstring
  | ElementNode string "(string \<times> jsstring) list" img_metrics "node list"
  | OtherNode

fun getAttribute :: "(string \<times> jsstring) list \<Rightarrow> string \<Rightarrow> jsstring option" where
  "getAttribute attrs name = map_of attrs name"

text \<open>\<open>classList\<close>: the tokens of the \<open>class\<close> attribute, split on ASCII whitespace.\<close>

fun tokens :: "jsstring \<Rightarrow> jsstring \<Rightarrow> jsstring list" where
  "tokens cur [] = (if cur = [] then [] else [cur])"
| "tokens cur (c # cs) =
     (if is_ascii_whitespace c then (if cur = [] then tokens [] cs else cur # tokens [] cs)
      else tokens (cur @ [c]) cs)"

definition classList :: "(string \<times> jsstring) list \<Rightarrow> jsstring list" where
  "classList attrs = (case map_of attrs ''class'' of None \<Rightarrow> [] | Some v \<Rightarrow> tokens [] v)"

text \<open>\<open>textContent\<close>: the data of a text node; for an element, the data of its text
  descendants in tree order.\<close>

fun textContent :: "node \<Rightarrow> jsstring" and textContents :: "node list \<Rightarrow> jsstring" where
  "textContent (TextNode t) = t"
| "textContent (ElementNode tag attrs m kids) = textContents kids"
| "textContent OtherNode = []"
| "textContents [] = []"
| "textContents (n # ns) = textContent n @ textContents ns"

text \<open>\<open>element.querySelector("img")\<close>: the first descendant element, in tree order,
  whose tag is IMG.\<close>

fun querySelector_img :: "node list \<Rightarrow> node option" where
  "querySelector_img [] = None"
| "querySelector_img (TextNode t # ns) = querySelector_img ns"
| "querySelector_img (OtherNode # ns) = querySelector_img ns"
| "querySelector_img (ElementNode tag attrs m kids # ns) =
     (if tag = ''IMG'' then Some (ElementNode tag attrs m kids)
      else (case querySelector_img kids of
              Some i \<Rightarrow> Some i
            | None \<Rightarrow> querySelector_img ns))"

section \<open>The portable document\<close>

text \<open>
  The docx package's \<open>Paragraph\<close>, \<open>TextRun\<close> and \<open>ImageRun\<close>, as data: a paragraph
  is a list of runs; an image run has its bytes and the \<open>transformation\<close> width and
  height.
\<close>

datatype run = TextRun jsstring | ImageRun "8 word list" int int

datatype doc_paragraph = Paragraph "run list"

datatype console_entry = Failed_to_process_image

text \<open>
  \<open>processNode\<close> pushes onto the array \<open>children\<close> and logs with \<open>console.error\<close>;
  the model passes both along.
\<close>

record export_state =
  children :: "doc_paragraph list"
  console :: "console_entry list"

definition push :: "doc_paragraph \<Rightarrow> export_state \<Rightarrow> export_state" where
  "push p st = st\<lparr>children := children st @ [p]\<rparr>"

subsection \<open>Export size of an image (App.tsx 345-367 and, the same text, 404-429)\<close>

text \<open>\<open>a || b\<close> on numbers: \<open>a\<close> unless it is 0.\<close>

definition js_or :: "nat \<Rightarrow> nat \<Rightarrow> nat" where
  "js_or a b = (if a \<noteq> 0 then a else b)"

definition originalWidth :: "img_metrics \<Rightarrow> nat" where
  "originalWidth m = js_or (js_or (unat (naturalWidth m)) (unat (width m))) 400"

definition originalHeight :: "img_metrics \<Rightarrow> nat" where
  "originalHeight m = js_or (js_or (unat (naturalHeight m)) (unat (height m))) 300"

text \<open>\<open>Math.round\<close>: the nearest integer, a tie going up.\<close>

definition Math_round :: "rat \<Rightarrow> int" where
  "Math_round x = \<lfloor>x + 1 / 2\<rfloor>"

definition maxWidth :: nat where
  "maxWidth = 600"

definition maxHeight :: nat where
  "maxHeight = 450"

text \<open>
  JavaScript numbers are IEEE doubles: the quotient and the product are each rounded
  to a double. The rounding is the parameter \<open>fl\<close> (the identity for exact
  arithmetic); \<open>Math.min\<close> and \<open>Math.round\<close> are exact.
\<close>

definition export_size :: "(rat \<Rightarrow> rat) \<Rightarrow> nat \<Rightarrow> nat \<Rightarrow> int \<times> int" where
  "export_size fl ow oh =
     (if ow > maxWidth \<or> oh > maxHeight then
        (let widthRatio = fl (of_nat maxWidth / of_nat ow);
             heightRatio = fl (of_nat maxHeight / of_nat oh);
             ratio = min widthRatio heightRatio
         in (Math_round (fl (of_nat ow * ratio)), Math_round (fl (of_nat oh * ratio))))
      else (int ow, int oh))"

subsection \<open>processNode (App.tsx 323-474)\<close>

text \<open>\<open>src.split(",")[1]\<close>; a missing second piece is \<open>undefined\<close>, which \<open>atob\<close>
  reads as the string "undefined".\<close>

definition base64Data :: "jsstring \<Rightarrow> jsstring" where
  "base64Data src = (case split COMMA src of _ # b # _ \<Rightarrow> b | _ \<Rightarrow> js ''undefined'')"

text \<open>
  The body of both image branches: nothing unless \<open>src\<close> is present and starts with
  \<open>data:image/\<close>; a throwing \<open>atob\<close> is caught and logged.
\<close>

definition process_image ::
  "(rat \<Rightarrow> rat) \<Rightarrow> (string \<times> jsstring) list \<Rightarrow> img_metrics \<Rightarrow> export_state \<Rightarrow> export_state" where
  "process_image fl attrs m st =
     (case getAttribute attrs ''src'' of
        None \<Rightarrow> st
      | Some src \<Rightarrow>
          if src \<noteq> [] \<and> startsWith src (js ''data:image/'') then
            (let (exportWidth, exportHeight) = export_size fl (originalWidth m) (originalHeight m)
             in case atob (base64Data src) of
                  None \<Rightarrow> st\<lparr>console := console st @ [Failed_to_process_image]\<rparr>
                | Some binaryString \<Rightarrow>
                    push (Paragraph [ImageRun (map ucast binaryString) exportWidth exportHeight]) st)
          else st)"

text \<open>\<open>lines.forEach\<close> of the text branch.\<close>

fun push_lines :: "jsstring list \<Rightarrow> export_state \<Rightarrow> export_state" where
  "push_lines [] st = st"
| "push_lines (line # lines) st =
     push_lines lines (if trim line \<noteq> [] then push (Paragraph [TextRun line]) st else st)"

fun processNode :: "(rat \<Rightarrow> rat) \<Rightarrow> node \<Rightarrow> export_state \<Rightarrow> export_state"
  and processNodes :: "(rat \<Rightarrow> rat) \<Rightarrow> node list \<Rightarrow> export_state \<Rightarrow> export_state" where
  "processNode fl (TextNode t) st =
     (let text = trim t in
      if text \<noteq> [] then push_lines (split LF text) st else st)"
| "processNode fl (ElementNode tag attrs m kids) st =
     (if tag = ''IMG'' then process_image fl attrs m st
      else if tag = ''SPAN'' \<and> js ''inline-image'' \<in> set (classList attrs) then
        (case querySelector_img kids of
           Some (ElementNode itag iattrs im ikids) \<Rightarrow> process_image fl iattrs im st
         | _ \<Rightarrow> st)
      else if tag = ''DIV'' \<or> tag = ''P'' then processNodes fl kids st
      else (let text = trim (textContents kids) in
            if text \<noteq> [] then push (Paragraph [TextRun text]) st else st))"
| "processNode fl OtherNode st = st"
| "processNodes fl [] st = st"
| "processNodes fl (n # ns) st = processNodes fl ns (processNode fl n st)"

definition eps :: rat where
  "eps = 1 / 2 ^ 53"

definition fl_ok :: "(rat \<Rightarrow> rat) \<Rightarrow> bool" where
  "fl_ok fl \<longleftrightarrow> (\<forall>x. 1 / 2 ^ 64 \<le> x \<and> x \<le> 2 ^ 64 \<longrightarrow> \<bar>fl x - x\<bar> \<le> x * eps)"

definition nearest_integer :: "rat \<Rightarrow> int \<Rightarrow> bool" where
  "nearest_integer x n \<longleftrightarrow> \<bar>of_int n - x\<bar> \<le> 1 / 2"

definition within_bound :: "doc_paragraph \<Rightarrow> bool" where
  "within_bound p \<longleftrightarrow>
     (case p of Paragraph rs \<Rightarrow>
        \<forall>r \<in> set rs. (case r of ImageRun bytes w h \<Rightarrow> 0 \<le> w \<and> w \<le> 600 \<and> 0 \<le> h \<and> h \<le> 450
                              | TextRun t \<Rightarrow> True))"

subsection \<open>Notions of the specification\<close>

text \<open>
  The specification's wording for a text node: split on line breaks, each line that
  is not all whitespace becomes a paragraph of one run holding the trimmed line.
\<close>

definition spec_text_paragraphs :: "jsstring \<Rightarrow> doc_paragraph list" where
  "spec_text_paragraphs t =
     map (\<lambda>l. Paragraph [TextRun (trim l)]) (filter (\<lambda>l. trim l \<noteq> []) (split LF t))"

text \<open>An image element whose \<open>src\<close> is absent or no \<open>data:image/\<close> URI.\<close>

definition no_data_uri :: "(string \<times> jsstring) list \<Rightarrow> bool" where
  "no_data_uri attrs =
     (case getAttribute attrs ''src'' of
        None \<Rightarrow> True
      | Some src \<Rightarrow> \<not> startsWith src (js ''data:image/''))"

subsection \<open>Rounding to a double\<close>

text \<open>
  A double has a significand of 53 bits: a number \<open>x\<close> with \<open>2^e \<le> x < 2^(e+1)\<close> is
  rounded to the nearest multiple of \<open>2^(e-52)\<close>, a tie going to the even multiple.
  \<open>binade n x\<close> is the largest \<open>e\<close> from -64 to \<open>n - 64\<close> with \<open>2^e \<le> x\<close>. The model
  covers the range \<open>2^-64 .. 2^64\<close>, in which the numbers of \<open>export_size\<close> lie; elsewhere
  it leaves \<open>x\<close> as it is.
\<close>

definition round_half_even :: "rat \<Rightarrow> int" where
  "round_half_even y =
     (let f = \<lfloor>y\<rfloor>; r = y - of_int f
      in if r < 1 / 2 then f else if 1 / 2 < r then f + 1 else if even f then f else f + 1)"

fun binade :: "nat \<Rightarrow> rat \<Rightarrow> int" where
  "binade 0 x = - 64"
| "binade (Suc n) x =
     (if 2 powi (int (Suc n) - 64) \<le> x then int (Suc n) - 64 else binade n x)"

definition double :: "rat \<Rightarrow> rat" where
  "double x =
     (if 1 / 2 ^ 64 \<le> x \<and> x \<le> 2 ^ 64
      then (let e = binade 128 x; u = 2 powi (e - 52)
            in of_int (round_half_even (x / u)) * u)
      else x)"

subsection \<open>The sizes of the images of a parsed fragment\<close>

text \<open>
  The four size properties of an image element are not part of the markup: the browser
  gives the natural size of the image once it has it at hand and 0 until then.
  \<open>sizes\<close> stands for that state of the browser at the time of the export: the
  properties it gives for a new image element with the given attributes.
  \<open>report_sizes\<close> sets them in a tree, so \<open>browser_parse parser sizes\<close> is what
  \<open>tempDiv.innerHTML = ...\<close> followed by \<open>tempDiv.childNodes\<close> yields, for the fragment
  parser \<open>parser\<close> of the HTML standard. \<open>image_attributes\<close> lists the image elements
  of a tree by their attributes.
\<close>

fun report_sizes :: "((string \<times> jsstring) list \<Rightarrow> img_metrics) \<Rightarrow> node \<Rightarrow> node" where
  "report_sizes sizes (TextNode t) = TextNode t"
| "report_sizes sizes (ElementNode tag attrs m kids) =
     ElementNode tag attrs (if tag = ''IMG'' then sizes attrs else m)
       (map (report_sizes sizes) kids)"
| "report_sizes sizes OtherNode = OtherNode"

definition browser_parse ::
  "(jsstring \<Rightarrow> node list) \<Rightarrow> ((string \<times> jsstring) list \<Rightarrow> img_metrics) \<Rightarrow> jsstring \<Rightarrow> node list" where
  "browser_parse parser sizes markup = map (report_sizes sizes) (parser markup)"

fun image_attributes :: "node \<Rightarrow> (string \<times> jsstring) list list" where
  "image_attributes (TextNode t) = []"
| "image_attributes (ElementNode tag attrs m kids) =
     (if tag = ''IMG'' then [attrs] else []) @ concat (map image_attributes kids)"
| "image_attributes OtherNode = []"

section \<open>The live editable element, ranges and the selection\<close>

text \<open>
  \<open>editorRef.current\<close> is the editable DIV; its tree is a \<open>node\<close> as above. A
  reference to a node, as a range or a saved cursor position holds it, is where the
  node is: in the editor at a path of child indexes from the editable element (\<open>[]\<close> is
  the element itself), outside the editor in the document, or in no document
  (removed, or never inserted; the number tells detached nodes apart, and each is its
  own root). A boundary point is a container and an offset, as in the DOM standard.
\<close>

datatype container = Document | Within "nat list" | Detached nat node

record range =
  startContainer :: container
  startOffset :: nat
  endContainer :: container
  endOffset :: nat

record editor =
  element :: node
  selection :: "range option"
  focused :: bool

datatype dom_exception = IndexSizeError | HierarchyRequestError | InvalidNodeTypeError

fun node_at :: "node \<Rightarrow> nat list \<Rightarrow> node option" where
  "node_at n [] = Some n"
| "node_at (ElementNode tag attrs m kids) (i # p) =
     (if i < length kids then node_at (kids ! i) p else None)"
| "node_at (TextNode t) (i # p) = None"
| "node_at OtherNode (i # p) = None"

text \<open>The length of a node: the units of a text node, the children of an element.\<close>

fun node_length :: "node \<Rightarrow> nat" where
  "node_length (TextNode t) = length t"
| "node_length (ElementNode tag attrs m kids) = length kids"
| "node_length OtherNode = 0"

text \<open>The document node has one child, the root element, which holds the editor.\<close>

definition container_length :: "node \<Rightarrow> container \<Rightarrow> nat" where
  "container_length r c =
     (case c of
        Document \<Rightarrow> 1
      | Within p \<Rightarrow> (case node_at r p of Some n \<Rightarrow> node_length n | None \<Rightarrow> 0)
      | Detached i n \<Rightarrow> node_length n)"

datatype tree_root = DocumentRoot | DetachedRoot nat

fun container_root :: "container \<Rightarrow> tree_root" where
  "container_root Document = DocumentRoot"
| "container_root (Within p) = DocumentRoot"
| "container_root (Detached i n) = DetachedRoot i"

text \<open>
  Tree order of boundary points of one root. In the editor, \<open>(p, o)\<close> is before
  \<open>(q, o')\<close> exactly when \<open>p @ [o]\<close> is lexicographically below \<open>q @ [o']\<close>, a proper
  prefix being below. \<open>(Document, 0)\<close> is before the editor and every other boundary
  point of the document node is after it.
\<close>

fun path_less :: "nat list \<Rightarrow> nat list \<Rightarrow> bool" where
  "path_less [] [] = False"
| "path_less [] (y # ys) = True"
| "path_less (x # xs) [] = False"
| "path_less (x # xs) (y # ys) = (x < y \<or> (x = y \<and> path_less xs ys))"

fun is_before :: "container \<times> nat \<Rightarrow> container \<times> nat \<Rightarrow> bool" where
  "is_before (Document, o1) (Document, o2) = (o1 < o2)"
| "is_before (Document, o1) (Within q, o2) = (o1 = 0)"
| "is_before (Within p, o1) (Document, o2) = (0 < o2)"
| "is_before (Within p, o1) (Within q, o2) = path_less (p @ [o1]) (q @ [o2])"
| "is_before (Detached i n, o1) (Detached j n', o2) = (o1 < o2)"
| "is_before _ _ = False"

subsection \<open>Range and Selection operations of the DOM standard\<close>

text \<open>\<open>document.createRange()\<close>: both boundary points at \<open>(document, 0)\<close>.\<close>

definition createRange :: range where
  "createRange =
     \<lparr>startContainer = Document, startOffset = 0, endContainer = Document, endOffset = 0\<rparr>"

text \<open>
  \<open>range.setStart(node, offset)\<close> throws IndexSizeError when the offset exceeds the
  node's length; a node outside the document is no error. When the node has another
  root than the range, or the point is after the range's end, the end moves with it.
  \<open>setEnd\<close> is the mirror image.
\<close>

definition setStart :: "node \<Rightarrow> range \<Rightarrow> container \<Rightarrow> nat \<Rightarrow> dom_exception + range" where
  "setStart r rg node offset =
     (if offset > container_length r node then Inl IndexSizeError
      else if container_root (startContainer rg) \<noteq> container_root node
              \<or> is_before (endContainer rg, endOffset rg) (node, offset)
      then Inr (rg\<lparr>startContainer := node, startOffset := offset,
                     endContainer := node, endOffset := offset\<rparr>)
      else Inr (rg\<lparr>startContainer := node, startOffset := offset\<rparr>))"

definition setEnd :: "node \<Rightarrow> range \<Rightarrow> container \<Rightarrow> nat \<Rightarrow> dom_exception + range" where
  "setEnd r rg node offset =
     (if offset > container_length r node then Inl IndexSizeError
      else if container_root (startContainer rg) \<noteq> container_root node
              \<or> is_before (node, offset) (startContainer rg, startOffset rg)
      then Inr (rg\<lparr>startContainer := node, startOffset := offset,
                     endContainer := node, endOffset := offset\<rparr>)
      else Inr (rg\<lparr>endContainer := node, endOffset := offset\<rparr>))"

text \<open>\<open>range.selectNodeContents(editorRef.current)\<close> and \<open>range.collapse(toStart)\<close>.\<close>

definition selectNodeContents_editor :: "node \<Rightarrow> range" where
  "selectNodeContents_editor r =
     \<lparr>startContainer = Within [], startOffset = 0,
      endContainer = Within [], endOffset = node_length r\<rparr>"

definition collapse :: "bool \<Rightarrow> range \<Rightarrow> range" where
  "collapse toStart rg =
     (if toStart then rg\<lparr>endContainer := startContainer rg, endOffset := startOffset rg\<rparr>
      else rg\<lparr>startContainer := endContainer rg, startOffset := endOffset rg\<rparr>)"

definition collapsed :: "range \<Rightarrow> bool" where
  "collapsed rg \<longleftrightarrow>
     startContainer rg = endContainer rg \<and> startOffset rg = endOffset rg"

definition removeAllRanges :: "editor \<Rightarrow> editor" where
  "removeAllRanges ed = ed\<lparr>selection := None\<rparr>"

text \<open>
  \<open>selection.addRange(range)\<close>: a range whose root is not the document is ignored
  (Selection API, step 1); so is a second range.
\<close>

definition addRange :: "range \<Rightarrow> editor \<Rightarrow> editor" where
  "addRange rg ed =
     (if container_root (startContainer rg) \<noteq> DocumentRoot then ed
      else if selection ed = None then ed\<lparr>selection := Some rg\<rparr>
      else ed)"

subsection \<open>saveCursorPosition and restoreCursorPosition (App.tsx 65-101)\<close>

text \<open>\<open>editorRef.current.contains(range.commonAncestorContainer)\<close>: both containers
  are in the editor.\<close>

fun in_editor :: "container \<Rightarrow> bool" where
  "in_editor (Within p) = True"
| "in_editor _ = False"

definition saveCursorPosition :: "editor option \<Rightarrow> range option" where
  "saveCursorPosition e =
     (case e of
        None \<Rightarrow> None
      | Some ed \<Rightarrow>
          (case selection ed of
             None \<Rightarrow> None
           | Some rg \<Rightarrow>
               if in_editor (startContainer rg) \<and> in_editor (endContainer rg)
               then Some \<lparr>startContainer = startContainer rg, startOffset = startOffset rg,
                          endContainer = endContainer rg, endOffset = endOffset rg\<rparr>
               else None))"

text \<open>
  The \<open>try\<close> block and the \<open>catch\<close> block of \<open>restoreCursorPosition\<close>. The result is
  the editor, or the exception that leaves the function.
\<close>

definition restore_try :: "range \<Rightarrow> editor \<Rightarrow> dom_exception + editor" where
  "restore_try position ed =
     (case setStart (element ed) createRange (startContainer position) (startOffset position) of
        Inl e \<Rightarrow> Inl e
      | Inr rg1 \<Rightarrow>
          (case setEnd (element ed) rg1 (endContainer position) (endOffset position) of
             Inl e \<Rightarrow> Inl e
           | Inr rg2 \<Rightarrow> Inr (addRange rg2 (removeAllRanges ed))))"

definition restore_catch :: "editor \<Rightarrow> dom_exception + editor" where
  "restore_catch ed =
     (let rg = collapse False (selectNodeContents_editor (element ed))
      in Inr (addRange rg (removeAllRanges ed)))"

definition restoreCursorPosition :: "range option \<Rightarrow> editor option \<Rightarrow> dom_exception + editor option" where
  "restoreCursorPosition position e =
     (case (position, e) of
        (Some pos, Some ed) \<Rightarrow>
          (case restore_try pos ed of
             Inr ed' \<Rightarrow> Inr (Some ed')
           | Inl ex \<Rightarrow> map_sum id Some (restore_catch ed))
      | _ \<Rightarrow> Inr e)"

section \<open>The component state and its handlers\<close>

subsection \<open>The state object and JSON\<close>

text \<open>
  The interface \<open>DraftContent\<close> (App.tsx 6-9). TypeScript erases it: at run time the
  state \<open>content\<close> holds whatever value \<open>setContent\<close> was given, and the load effect
  gives it the result of \<open>JSON.parse\<close> as it is. So the state holds a JSON value: a
  number is an integer (\<open>Date.now()\<close> gives one), and an object is the list of its own
  properties in their enumeration order, the keys distinct.
\<close>

record DraftContent =
  htmlContent :: jsstring
  timestamp :: nat

datatype json =
    JNull
  | JBool bool
  | JNumber int
  | JString jsstring
  | JArray "json list"
  | JObject "(jsstring \<times> json) list"

text \<open>The object literal \<open>{ htmlContent: h, timestamp: t }\<close>.\<close>

definition draft_object :: "DraftContent \<Rightarrow> json" where
  "draft_object c =
     JObject [(js ''htmlContent'', JString (htmlContent c)),
              (js ''timestamp'', JNumber (int (timestamp c)))]"

text \<open>
  The read \<open>v.htmlContent\<close>: a TypeError on \<open>null\<close>, the property of an object, and
  \<open>undefined\<close> (here \<open>None\<close>) on an object without it and on a number, a boolean, a
  string or an array.
\<close>

datatype type_error = TypeError

definition get_htmlContent :: "json \<Rightarrow> type_error + json option" where
  "get_htmlContent v =
     (case v of
        JNull \<Rightarrow> Inl TypeError
      | JObject ps \<Rightarrow> Inr (map_of ps (js ''htmlContent''))
      | _ \<Rightarrow> Inr None)"

text \<open>The values that count as true in a condition; \<open>undefined\<close> does not.\<close>

fun truthy :: "json \<Rightarrow> bool" where
  "truthy JNull = False"
| "truthy (JBool b) = b"
| "truthy (JNumber n) = (n \<noteq> 0)"
| "truthy (JString s) = (s \<noteq> [])"
| "truthy (JArray xs) = True"
| "truthy (JObject ps) = True"

text \<open>
  The conversion to a string that an assignment to \<open>innerHTML\<close> applies: a string is
  itself, an integer its decimal digits (below \<open>10^21\<close>, where JavaScript turns to the
  exponent form), an array its elements joined by commas with \<open>null\<close> as the empty
  string, an object \<open>[object Object]\<close>.
\<close>

fun decimal :: "nat \<Rightarrow> jsstring" where
  "decimal n =
     (if n < 10 then [word_of_nat (48 + n)]
      else decimal (n div 10) @ [word_of_nat (48 + n mod 10)])"

declare decimal.simps [simp del]

fun join :: "jsstring \<Rightarrow> jsstring list \<Rightarrow> jsstring" where
  "join sep [] = []"
| "join sep [s] = s"
| "join sep (s # t # ss) = s @ sep @ join sep (t # ss)"

primrec ToString :: "json \<Rightarrow> jsstring" where
  "ToString JNull = js ''null''"
| "ToString (JBool b) = (if b then js ''true'' else js ''false'')"
| "ToString (JNumber n) = (if n < 0 then js ''-'' @ decimal (nat (- n)) else decimal (nat n))"
| "ToString (JString s) = s"
| "ToString (JArray xs) =
     join (js '','') (map (\<lambda>x. case x of JNull \<Rightarrow> [] | _ \<Rightarrow> ToString x) xs)"
| "ToString (JObject ps) = js ''[object Object]''"

text \<open>
  \<open>{ ...prev, htmlContent: h, timestamp: t }\<close> (App.tsx 108-112, 133-137): the own
  enumerable properties of \<open>prev\<close> (those of an object; the elements of an array and the
  code units of a string under their indices; none of a number, a boolean or \<open>null\<close>),
  then the two properties, each replacing the value of a property of that name where
  it stands, or added at the end.
\<close>

definition own_properties :: "json \<Rightarrow> (jsstring \<times> json) list" where
  "own_properties v =
     (case v of
        JObject ps \<Rightarrow> ps
      | JArray xs \<Rightarrow> zip (map decimal [0..<length xs]) xs
      | JString s \<Rightarrow> zip (map decimal [0..<length s]) (map (\<lambda>c. JString [c]) s)
      | _ \<Rightarrow> [])"

definition set_property :: "jsstring \<Rightarrow> json \<Rightarrow> (jsstring \<times> json) list \<Rightarrow> (jsstring \<times> json) list" where
  "set_property k v ps =
     (if k \<in> set (map fst ps) then map (\<lambda>(k', v'). (k', if k' = k then v else v')) ps
      else ps @ [(k, v)])"

definition spread_update :: "json \<Rightarrow> jsstring \<Rightarrow> nat \<Rightarrow> json" where
  "spread_update prev h t =
     JObject (set_property (js ''timestamp'') (JNumber (int t))
                (set_property (js ''htmlContent'') (JString h) (own_properties prev)))"

text \<open>
  A string of \<open>localStorage\<close>: a JSON text, identified with the value it encodes, or a
  string that is no JSON text. \<open>JSON.parse\<close> throws a SyntaxError on the latter, here
  \<open>None\<close>. Only the empty string counts as false in \<open>if (saved)\<close>.
\<close>

datatype stored = JSON_text json | Other_text jsstring

definition JSON_stringify :: "json \<Rightarrow> stored" where
  "JSON_stringify v = JSON_text v"

definition JSON_parse :: "stored \<Rightarrow> json option" where
  "JSON_parse s = (case s of JSON_text v \<Rightarrow> Some v | Other_text t \<Rightarrow> None)"

definition STORAGE_KEY :: jsstring where
  "STORAGE_KEY = js ''draftNote_content''"

subsection \<open>State, timers\<close>

datatype notification_type = Success | Error | Info

record notification =
  message :: jsstring
  ntype :: notification_type
  visible :: bool

text \<open>
  What a \<open>setTimeout\<close> callback of the component does: the autosave write of the
  content it closed over, the deferred cursor restoration, the deferred update after a
  composition, hiding the notification, focusing the editor.
\<close>

datatype task =
    Autosave json
  | RestoreCursor "range option"
  | UpdateContent
  | HideNotification
  | FocusEditor

record timer =
  timer_id :: nat
  due :: nat
  task :: task

text \<open>
  The React state (\<open>content\<close>, \<open>notification\<close>, \<open>showClearConfirm\<close>, \<open>isComposing\<close>),
  the ref, and the browser state the handlers use: the pending timers, the clock
  (\<open>Date.now()\<close>, in milliseconds), the \<open>localStorage.setItem\<close> calls so far, and the
  timer handle that the last run of the autosave effect holds for its cleanup.
\<close>

record app =
  content :: json
  notification :: notification
  showClearConfirm :: bool
  isComposing :: bool
  editorRef :: "editor option"
  timers :: "timer list"
  next_timer :: nat
  clock :: nat
  setItem_calls :: "(jsstring \<times> stored) list"
  autosave_timer :: "nat option"

definition setTimeout :: "task \<Rightarrow> nat \<Rightarrow> app \<Rightarrow> nat \<times> app" where
  "setTimeout t delay st =
     (next_timer st,
      st\<lparr>timers := timers st @ [\<lparr>timer_id = next_timer st, due = clock st + delay, task = t\<rparr>],
         next_timer := Suc (next_timer st)\<rparr>)"

definition clearTimeout :: "nat \<Rightarrow> app \<Rightarrow> app" where
  "clearTimeout i st = st\<lparr>timers := filter (\<lambda>t. timer_id t \<noteq> i) (timers st)\<rparr>"

subsection \<open>The autosave effect (App.tsx 45-51)\<close>

text \<open>
  \<open>useEffect(..., [content])\<close>: after a render with a new \<open>content\<close> object React runs
  the cleanup of the effect's previous run, \<open>clearTimeout(timer)\<close>, and then the effect,
  which arms a timer of 1000 ms that writes the content of that render. Every
  \<open>setContent\<close> of the component passes a new object, so the model runs cleanup and
  effect with the state update.
\<close>

definition autosave_cleanup :: "app \<Rightarrow> app" where
  "autosave_cleanup st =
     (case autosave_timer st of None \<Rightarrow> st | Some i \<Rightarrow> clearTimeout i st)"

definition autosave_effect :: "app \<Rightarrow> app" where
  "autosave_effect st =
     (let (i, st') = setTimeout (Autosave (content st)) 1000 st
      in st'\<lparr>autosave_timer := Some i\<rparr>)"

definition setContent :: "json \<Rightarrow> app \<Rightarrow> app" where
  "setContent c st = autosave_effect (autosave_cleanup (st\<lparr>content := c\<rparr>))"

subsection \<open>handleContentChange, handleCompositionStart, handleCompositionEnd (App.tsx 104-140)\<close>

text \<open>
  \<open>innerHTML\<close> is the browser's serialisation of the editor's children, a parameter.
  \<open>isComposing\<close> in \<open>handleContentChange\<close> is the constant of the render that made the
  function: the value the flag had at that render. The \<open>onInput\<close> binding is renewed
  with every render, so it sees the flag of the state. The functions that a paste
  keeps, \<open>reader.onload\<close> and the \<open>onclick\<close> of the delete button (App.tsx 203-208,
  240), call the \<open>handleContentChange\<close> of the render in which the paste happened.
\<close>

definition handleContentChange :: "(node \<Rightarrow> jsstring) \<Rightarrow> bool \<Rightarrow> app \<Rightarrow> app" where
  "handleContentChange innerHTML isComposing_seen st =
     (case editorRef st of
        None \<Rightarrow> st
      | Some ed \<Rightarrow>
          if \<not> isComposing_seen then
            (let cursorPosition = saveCursorPosition (editorRef st);
                 st1 = setContent (spread_update (content st) (innerHTML (element ed)) (clock st)) st
             in snd (setTimeout (RestoreCursor cursorPosition) 0 st1))
          else st)"

definition onInput :: "(node \<Rightarrow> jsstring) \<Rightarrow> app \<Rightarrow> app" where
  "onInput innerHTML st = handleContentChange innerHTML (isComposing st) st"

definition handleCompositionStart :: "app \<Rightarrow> app" where
  "handleCompositionStart st = st\<lparr>isComposing := True\<rparr>"

definition handleCompositionEnd :: "app \<Rightarrow> app" where
  "handleCompositionEnd st = snd (setTimeout UpdateContent 0 (st\<lparr>isComposing := False\<rparr>))"

subsection \<open>Timer callbacks\<close>

text \<open>
  A callback that throws ends with the exception; none of them does
  (\<open>restoreCursorPosition\<close> is the only one that calls throwing operations).
\<close>

definition run_task :: "(node \<Rightarrow> jsstring) \<Rightarrow> task \<Rightarrow> app \<Rightarrow> dom_exception + app" where
  "run_task innerHTML t st =
     (case t of
        Autosave c \<Rightarrow>
          Inr (st\<lparr>setItem_calls := setItem_calls st @ [(STORAGE_KEY, JSON_stringify c)]\<rparr>)
      | RestoreCursor position \<Rightarrow>
          (case restoreCursorPosition position (editorRef st) of
             Inl ex \<Rightarrow> Inl ex
           | Inr e \<Rightarrow> Inr (st\<lparr>editorRef := e\<rparr>))
      | UpdateContent \<Rightarrow>
          (case editorRef st of
             None \<Rightarrow> Inr st
           | Some ed \<Rightarrow>
               Inr (setContent (spread_update (content st) (innerHTML (element ed)) (clock st)) st))
      | HideNotification \<Rightarrow> Inr (st\<lparr>notification := (notification st)\<lparr>visible := False\<rparr>\<rparr>)
      | FocusEditor \<Rightarrow> Inr (st\<lparr>editorRef := map_option (\<lambda>ed. ed\<lparr>focused := True\<rparr>) (editorRef st)\<rparr>))"

subsection \<open>handleExportWord (App.tsx 313-498)\<close>

text \<open>
  \<open>parse\<close> is the browser's fragment parser behind \<open>tempDiv.innerHTML = ...\<close>, a
  parameter: it gives \<open>tempDiv.childNodes\<close>. The result is the array \<open>children\<close>, which
  becomes the one section of the \<open>Document\<close>, and the console. Serialising the
  document (\<open>Packer.toBlob\<close>) and delivering the file (\<open>saveAs\<close>) belong to the docx and
  file-saver packages. The condition of line 317 reads \<open>content.htmlContent\<close> only
  when the ref is set; a TypeError of that read goes to the catch of line 494, which
  reports the failure, and no document is made.
\<close>

datatype export_failure = Export_failed

definition finish_export :: "export_state \<Rightarrow> export_state" where
  "finish_export st1 =
     (if children st1 = [] then push (Paragraph [TextRun (js '' '')]) st1 else st1)"

definition handleExportWord ::
  "(jsstring \<Rightarrow> node list) \<Rightarrow> (rat \<Rightarrow> rat) \<Rightarrow> app \<Rightarrow> export_failure + export_state" where
  "handleExportWord parse fl st =
     (let st0 = \<lparr>children = [], console = []\<rparr>
      in case editorRef st of
           None \<Rightarrow> Inr (finish_export st0)
         | Some ed \<Rightarrow>
             (case get_htmlContent (content st) of
                Inl e \<Rightarrow> Inl Export_failed
              | Inr None \<Rightarrow> Inr (finish_export st0)
              | Inr (Some v) \<Rightarrow>
                  if truthy v
                  then Inr (finish_export (processNodes fl (parse (ToString v)) st0))
                  else Inr (finish_export st0)))"

subsection \<open>showNotification and handleClear (App.tsx 54-62, 251-261)\<close>

definition showNotification :: "jsstring \<Rightarrow> notification_type \<Rightarrow> app \<Rightarrow> app" where
  "showNotification msg ty st =
     snd (setTimeout HideNotification 3000
            (st\<lparr>notification := \<lparr>message = msg, ntype = ty, visible = True\<rparr>\<rparr>))"

text \<open>The message of \<open>handleClear\<close>, in UTF-16 code units.\<close>

definition msg_cleared :: jsstring where
  "msg_cleared = [0x6587, 0x6863, 0x5DF2, 0x6E05, 0x7A7A]"

text \<open>
  An assignment to the editor's \<open>innerHTML\<close> replaces its children by the parsed
  nodes; a boundary point of the selection inside the editor moves to the editor
  itself, offset 0, as the DOM does for a live range when its container is removed.
  The empty string parses to no node.
\<close>

definition clear_range :: "range \<Rightarrow> range" where
  "clear_range rg =
     (let rg1 = (case startContainer rg of
                   Within ps \<Rightarrow> rg\<lparr>startContainer := Within [], startOffset := 0\<rparr>
                 | _ \<Rightarrow> rg)
      in case endContainer rg1 of
           Within ps \<Rightarrow> rg1\<lparr>endContainer := Within [], endOffset := 0\<rparr>
         | _ \<Rightarrow> rg1)"

definition set_innerHTML :: "node list \<Rightarrow> editor \<Rightarrow> editor" where
  "set_innerHTML nodes ed =
     (case element ed of
        ElementNode tag attrs m kids \<Rightarrow>
          ed\<lparr>element := ElementNode tag attrs m nodes,
             selection := map_option clear_range (selection ed)\<rparr>
      | n \<Rightarrow> ed)"

definition handleClear :: "app \<Rightarrow> app" where
  "handleClear st =
     (let st1 = setContent (draft_object \<lparr>htmlContent = [], timestamp = clock st\<rparr>) st;
          st2 = st1\<lparr>editorRef := map_option (set_innerHTML []) (editorRef st1)\<rparr>;
          st3 = st2\<lparr>showClearConfirm := False\<rparr>
      in showNotification msg_cleared Success st3)"

subsection \<open>Mounting (App.tsx 14-51)\<close>

text \<open>
  \<open>initial_app now ed\<close> is the component after its first render at time \<open>now\<close>: the
  initial values of \<open>useState\<close> (App.tsx 14-24), the ref set to the editor, and the
  first run of the autosave effect.
\<close>

definition initial_app :: "nat \<Rightarrow> editor \<Rightarrow> app" where
  "initial_app now ed =
     autosave_effect
       \<lparr>content = draft_object \<lparr>htmlContent = [], timestamp = now\<rparr>,
        notification = \<lparr>message = [], ntype = Info, visible = False\<rparr>,
        showClearConfirm = False,
        isComposing = False,
        editorRef = Some ed,
        timers = [],
        next_timer = 0,
        clock = now,
        setItem_calls = [],
        autosave_timer = None\<rparr>"

text \<open>
  The loading effect (App.tsx 28-42) with \<open>saved\<close>, the result of
  \<open>localStorage.getItem(STORAGE_KEY)\<close>. Nothing is loaded when there is no item, when
  it is the empty string, or when \<open>JSON.parse\<close> throws (the catch logs it). Otherwise
  the parsed value becomes the state as it is, whatever its shape, and when its
  \<open>htmlContent\<close> counts as true it becomes the editor's markup. For \<open>null\<close> the read
  \<open>parsedContent.htmlContent\<close> throws after \<open>setContent(null)\<close>; the next render
  reads \<open>content.htmlContent\<close> (App.tsx 546) and throws too, React unmounts the
  component and the cleanup cancels the timer: no state, \<open>None\<close>.
\<close>

definition mount :: "(jsstring \<Rightarrow> node list) \<Rightarrow> stored option \<Rightarrow> nat \<Rightarrow> editor \<Rightarrow> app option" where
  "mount parse saved now ed =
     (let st = initial_app now ed
      in case saved of
           None \<Rightarrow> Some st
         | Some text \<Rightarrow>
             if text = Other_text [] then Some st
             else
               (case JSON_parse text of
                  None \<Rightarrow> Some st
                | Some parsedContent \<Rightarrow>
                    (case get_htmlContent parsedContent of
                       Inl e \<Rightarrow> None
                     | Inr None \<Rightarrow> Some (setContent parsedContent st)
                     | Inr (Some h) \<Rightarrow>
                         Some (setContent parsedContent
                                 (if truthy h
                                  then st\<lparr>editorRef := Some (set_innerHTML (parse (ToString h)) ed)\<rparr>
                                  else st)))))"

subsection \<open>Time passing: the timers that come due\<close>

text \<open>
  The pending timer that fires next: the least \<open>due\<close>, the earlier armed of two equal
  ones. \<open>advance_to t\<close> lets the time reach \<open>t\<close> with no other event: it runs the
  callbacks of the timers due by then, each at its due time, in that order, and those
  they arm in turn.
\<close>

fun earliest :: "timer list \<Rightarrow> timer option" where
  "earliest [] = None"
| "earliest (x # xs) =
     (case earliest xs of
        None \<Rightarrow> Some x
      | Some y \<Rightarrow> if due y < due x then Some y else Some x)"

definition fire :: "(node \<Rightarrow> jsstring) \<Rightarrow> timer \<Rightarrow> app \<Rightarrow> app" where
  "fire innerHTML tm st =
     (let st1 = st\<lparr>timers := remove1 tm (timers st), clock := max (clock st) (due tm)\<rparr>
      in case run_task innerHTML (task tm) st1 of
           Inl ex \<Rightarrow> st1
         | Inr st2 \<Rightarrow> st2)"

definition pending_weight :: "app \<Rightarrow> nat" where
  "pending_weight st =
     2 * length (filter (\<lambda>tm. task tm = UpdateContent) (timers st)) + length (timers st)"


lemma earliest_mem: "earliest xs = Some x \<Longrightarrow> x \<in> set xs"
  by (induction xs arbitrary: x) (auto split: option.splits if_splits)

lemma length_filter_filter:
  "length (filter P (filter Q xs)) \<le> length (filter P xs)"
  by (induction xs) auto

lemma pending_weight_cleanup:
  "pending_weight (autosave_cleanup st) \<le> pending_weight st"
proof (cases "autosave_timer st")
  case None
  then show ?thesis by (simp add: autosave_cleanup_def)
next
  case (Some i)
  have "length (filter (\<lambda>tm. task tm = UpdateContent) (filter (\<lambda>t. timer_id t \<noteq> i) (timers st)))
      \<le> length (filter (\<lambda>tm. task tm = UpdateContent) (timers st))"
    by (rule length_filter_filter)
  moreover have "length (filter (\<lambda>t. timer_id t \<noteq> i) (timers st)) \<le> length (timers st)"
    by (rule length_filter_le)
  ultimately have "2 * length (filter (\<lambda>tm. task tm = UpdateContent) (filter (\<lambda>t. timer_id t \<noteq> i) (timers st)))
        + length (filter (\<lambda>t. timer_id t \<noteq> i) (timers st))
      \<le> 2 * length (filter (\<lambda>tm. task tm = UpdateContent) (timers st)) + length (timers st)"
    by linarith
  then show ?thesis
    using Some by (simp add: autosave_cleanup_def clearTimeout_def pending_weight_def del: filter_filter)
qed

lemma pending_weight_effect:
  "pending_weight (autosave_effect st) = Suc (pending_weight st)"
  by (simp add: autosave_effect_def setTimeout_def pending_weight_def)

lemma pending_weight_content [simp]:
  "pending_weight (st\<lparr>content := c\<rparr>) = pending_weight st"
  by (simp add: pending_weight_def)

lemma pending_weight_setContent:
  "pending_weight (setContent c st) \<le> Suc (pending_weight st)"
  using pending_weight_cleanup[of "st\<lparr>content := c\<rparr>"]
  by (simp add: setContent_def pending_weight_effect)

lemma run_task_timers:
  "t \<noteq> UpdateContent \<Longrightarrow> run_task innerHTML t st = Inr st' \<Longrightarrow> timers st' = timers st"
  by (cases t) (auto simp: run_task_def split: sum.splits)

lemma fire_timers:
  "task tm \<noteq> UpdateContent \<Longrightarrow> timers (fire innerHTML tm st) = remove1 tm (timers st)"
  using run_task_timers[of "task tm" innerHTML]
  by (auto simp: fire_def Let_def split: sum.splits)

lemma pending_weight_fire:
  assumes "tm \<in> set (timers st)"
  shows "pending_weight (fire innerHTML tm st) < pending_weight st"
proof -
  let ?st1 = "st\<lparr>timers := remove1 tm (timers st), clock := max (clock st) (due tm)\<rparr>"
  have pos: "0 < length (timers st)" using assms by (rule length_pos_if_in_set)
  have len: "Suc (length (remove1 tm (timers st))) = length (timers st)"
    using assms pos by (simp add: length_remove1)
  have upd: "length (filter (\<lambda>t. task t = UpdateContent) (remove1 tm (timers st)))
      \<le> length (filter (\<lambda>t. task t = UpdateContent) (timers st))"
    by (simp add: filter_remove1 length_remove1)
  have updlt: "Suc (length (filter (\<lambda>t. task t = UpdateContent) (remove1 tm (timers st))))
      = length (filter (\<lambda>t. task t = UpdateContent) (timers st))" if u: "task tm = UpdateContent"
  proof -
    have "tm \<in> set (filter (\<lambda>t. task t = UpdateContent) (timers st))" using assms u by simp
    then have "0 < length (filter (\<lambda>t. task t = UpdateContent) (timers st))"
      by (rule length_pos_if_in_set)
    then show ?thesis using assms u by (simp add: filter_remove1 length_remove1)
  qed
  show ?thesis
  proof (cases "task tm = UpdateContent")
    case False
    have "pending_weight (fire innerHTML tm st)
        = 2 * length (filter (\<lambda>t. task t = UpdateContent) (remove1 tm (timers st)))
          + length (remove1 tm (timers st))"
      by (simp add: pending_weight_def fire_timers[OF False])
    then show ?thesis using len upd by (simp add: pending_weight_def)
  next
    case True
    have w3: "pending_weight ?st1 + 3 = pending_weight st"
      using len updlt[OF True] by (simp add: pending_weight_def)
    show ?thesis
    proof (cases "editorRef st")
      case None
      then have "fire innerHTML tm st = ?st1" using True by (simp add: fire_def run_task_def)
      then show ?thesis using w3 by simp
    next
      case (Some ed)
      then have "fire innerHTML tm st
          = setContent (spread_update (content ?st1) (innerHTML (element ed)) (clock ?st1)) ?st1"
        using True by (simp add: fire_def run_task_def)
      then show ?thesis
        using w3 pending_weight_setContent[of
            "spread_update (content ?st1) (innerHTML (element ed)) (clock ?st1)" ?st1]
        by simp
    qed
  qed
qed

function advance_to :: "(node \<Rightarrow> jsstring) \<Rightarrow> nat \<Rightarrow> app \<Rightarrow> app" where
  "advance_to innerHTML t st =
     (case earliest (filter (\<lambda>tm. due tm \<le> t) (timers st)) of
        None \<Rightarrow> st\<lparr>clock := max (clock st) t\<rparr>
      | Some tm \<Rightarrow> advance_to innerHTML t (fire innerHTML tm st))"
  by pat_completeness auto
termination
proof (relation "measure (\<lambda>(innerHTML, t, st). pending_weight st)")
  show "wf (measure (\<lambda>(innerHTML, t, st). pending_weight st))" by simp
next
  fix innerHTML :: "node \<Rightarrow> jsstring" and t :: nat and st :: app and tm :: timer
  assume "earliest (filter (\<lambda>tm. due tm \<le> t) (timers st)) = Some tm"
  then have "tm \<in> set (timers st)" using earliest_mem by fastforce
  then show "((innerHTML, t, fire innerHTML tm st), (innerHTML, t, st))
      \<in> measure (\<lambda>(innerHTML, t, st). pending_weight st)"
    using pending_weight_fire by simp
qed

subsection \<open>Notions for the autosave claims\<close>

definition is_autosave :: "timer \<Rightarrow> bool" where
  "is_autosave tm = (case task tm of Autosave c \<Rightarrow> True | _ \<Rightarrow> False)"

text \<open>
  Invariants of the component: the handle of the autosave effect covers every pending
  autosave timer, and a pending autosave timer holds the current content. They hold
  after mounting and every handler and callback keeps them.
\<close>

definition autosave_tracked :: "app \<Rightarrow> bool" where
  "autosave_tracked st \<longleftrightarrow>
     (\<forall>tm \<in> set (timers st). is_autosave tm \<longrightarrow> autosave_timer st = Some (timer_id tm))"

definition autosave_current :: "app \<Rightarrow> bool" where
  "autosave_current st \<longleftrightarrow>
     (\<forall>tm \<in> set (timers st). is_autosave tm \<longrightarrow> task tm = Autosave (content st))"

definition no_pending_update :: "app \<Rightarrow> bool" where
  "no_pending_update st \<longleftrightarrow> (\<forall>tm \<in> set (timers st). task tm \<noteq> UpdateContent)"

text \<open>
  A burst of snapshot changes: each \<open>(gap, c)\<close> lets \<open>gap\<close> milliseconds pass after the
  previous change and then replaces the snapshot by \<open>c\<close>.
\<close>

fun run_changes :: "(node \<Rightarrow> jsstring) \<Rightarrow> (nat \<times> json) list \<Rightarrow> app \<Rightarrow> app" where
  "run_changes innerHTML [] st = st"
| "run_changes innerHTML ((gap, c) # cs) st =
     run_changes innerHTML cs (setContent c (advance_to innerHTML (clock st + gap) st))"

text \<open>The stored value as the specification words it: fields \<open>content\<close> and
  \<open>timestamp\<close>.\<close>

definition spec_stored_value :: "DraftContent \<Rightarrow> json" where
  "spec_stored_value c =
     JObject [(js ''content'', JString (htmlContent c)),
              (js ''timestamp'', JNumber (int (timestamp c)))]"

section \<open>Pasting an image\<close>

subsection \<open>Range.deleteContents, Range.insertNode and Range.setStartAfter\<close>

text \<open>
  The DOM keeps every range valid: its containers exist, its offsets are within their
  lengths and its start is not after its end. The functions below follow the DOM
  standard on valid ranges inside the editor, which is where \<open>handlePaste\<close> calls them
  (it tests \<open>contains(range.commonAncestorContainer)\<close> first); on other arguments they
  leave the tree as it is.
\<close>

definition valid_boundary :: "node \<Rightarrow> nat list \<Rightarrow> nat \<Rightarrow> bool" where
  "valid_boundary r p off = (case node_at r p of Some n \<Rightarrow> off \<le> node_length n | None \<Rightarrow> False)"

definition valid_range :: "node \<Rightarrow> range \<Rightarrow> bool" where
  "valid_range r rg =
     (case (startContainer rg, endContainer rg) of
        (Within ps, Within pe) \<Rightarrow>
          valid_boundary r ps (startOffset rg) \<and> valid_boundary r pe (endOffset rg) \<and>
          \<not> is_before (Within pe, endOffset rg) (Within ps, startOffset rg)
      | _ \<Rightarrow> False)"

text \<open>\<open>map_kids p f r\<close>: the tree \<open>r\<close> with \<open>f\<close> applied to the children of the element
  at path \<open>p\<close>.\<close>

fun map_kids :: "nat list \<Rightarrow> (node list \<Rightarrow> node list) \<Rightarrow> node \<Rightarrow> node" where
  "map_kids [] f (ElementNode tag attrs m kids) = ElementNode tag attrs m (f kids)"
| "map_kids (i # p) f (ElementNode tag attrs m kids) =
     (if i < length kids then ElementNode tag attrs m (kids[i := map_kids p f (kids ! i)])
      else ElementNode tag attrs m kids)"
| "map_kids p f (TextNode t) = TextNode t"
| "map_kids p f OtherNode = OtherNode"

text \<open>Removing the content of a node between two of its offsets.\<close>

fun cut :: "nat \<Rightarrow> nat \<Rightarrow> node \<Rightarrow> node" where
  "cut a b (TextNode t) = TextNode (take a t @ drop b t)"
| "cut a b (ElementNode tag attrs m kids) = ElementNode tag attrs m (take a kids @ drop b kids)"
| "cut a b OtherNode = OtherNode"

text \<open>
  \<open>deleteContents\<close>: a node that the range contains whole is removed; a node that it
  contains in part stays, without the part in the range. \<open>delete_after\<close> removes from
  a node what follows a boundary point in it, \<open>delete_before\<close> what precedes one, and
  \<open>delete_between\<close> what lies between two, giving also the point at which the range
  collapses: the start when the start node is an ancestor of the end node or the end
  node itself, else the point after the start node's ancestor that is a child of the
  common ancestor.
\<close>

fun delete_after :: "node \<Rightarrow> nat list \<Rightarrow> nat \<Rightarrow> node" where
  "delete_after n [] off = cut off (node_length n) n"
| "delete_after (ElementNode tag attrs m kids) (i # p) off =
     (if i < length kids
      then ElementNode tag attrs m (take i kids @ [delete_after (kids ! i) p off])
      else ElementNode tag attrs m kids)"
| "delete_after (TextNode t) (i # p) off = TextNode t"
| "delete_after OtherNode (i # p) off = OtherNode"

fun delete_before :: "node \<Rightarrow> nat list \<Rightarrow> nat \<Rightarrow> node" where
  "delete_before n [] off = cut 0 off n"
| "delete_before (ElementNode tag attrs m kids) (j # p) off =
     (if j < length kids
      then ElementNode tag attrs m (delete_before (kids ! j) p off # drop (Suc j) kids)
      else ElementNode tag attrs m kids)"
| "delete_before (TextNode t) (j # p) off = TextNode t"
| "delete_before OtherNode (j # p) off = OtherNode"

fun delete_between :: "node \<Rightarrow> nat list \<Rightarrow> nat \<Rightarrow> nat list \<Rightarrow> nat \<Rightarrow> node \<times> nat list \<times> nat" where
  "delete_between n [] so [] eo = (cut so eo n, [], so)"
| "delete_between (ElementNode tag attrs m kids) [] so (j # pe) eo =
     (if j < length kids
      then (ElementNode tag attrs m
              (take so kids @ delete_before (kids ! j) pe eo # drop (Suc j) kids), [], so)
      else (ElementNode tag attrs m kids, [], so))"
| "delete_between (ElementNode tag attrs m kids) (i # ps) so [] eo =
     (if i < length kids
      then (ElementNode tag attrs m
              (take i kids @ delete_after (kids ! i) ps so # drop eo kids), [], Suc i)
      else (ElementNode tag attrs m kids, i # ps, so))"
| "delete_between (ElementNode tag attrs m kids) (i # ps) so (j # pe) eo =
     (if i = j then
        (if i < length kids
         then (case delete_between (kids ! i) ps so pe eo of
                 (k, p, off) \<Rightarrow> (ElementNode tag attrs m (kids[i := k]), i # p, off))
         else (ElementNode tag attrs m kids, i # ps, so))
      else if i < length kids \<and> j < length kids
      then (ElementNode tag attrs m
              (take i kids @ delete_after (kids ! i) ps so # delete_before (kids ! j) pe eo
                 # drop (Suc j) kids), [], Suc i)
      else (ElementNode tag attrs m kids, i # ps, so))"
| "delete_between (TextNode t) ps so pe eo = (TextNode t, ps, so)"
| "delete_between OtherNode ps so pe eo = (OtherNode, ps, so)"

definition deleteContents :: "node \<Rightarrow> range \<Rightarrow> node \<times> range" where
  "deleteContents r rg =
     (case (startContainer rg, endContainer rg) of
        (Within ps, Within pe) \<Rightarrow>
          if collapsed rg then (r, rg)
          else (case delete_between r ps (startOffset rg) pe (endOffset rg) of
                  (r', p, off) \<Rightarrow>
                    (r', \<lparr>startContainer = Within p, startOffset = off,
                          endContainer = Within p, endOffset = off\<rparr>))
      | _ \<Rightarrow> (r, rg))"

text \<open>
  The text of a tree before and after a boundary point \<open>(p, off)\<close> of it, in tree
  order: \<open>text_before\<close> holds the code units of the text nodes and parts of text nodes
  that precede the point, \<open>text_after\<close> those that follow it.
\<close>

fun text_before :: "node \<Rightarrow> nat list \<Rightarrow> nat \<Rightarrow> jsstring" where
  "text_before (TextNode t) [] off = take off t"
| "text_before (ElementNode tag attrs m kids) [] off = textContents (take off kids)"
| "text_before (ElementNode tag attrs m kids) (i # p) off =
     (if i < length kids then textContents (take i kids) @ text_before (kids ! i) p off
      else textContents kids)"
| "text_before n p off = []"

fun text_after :: "node \<Rightarrow> nat list \<Rightarrow> nat \<Rightarrow> jsstring" where
  "text_after (TextNode t) [] off = drop off t"
| "text_after (ElementNode tag attrs m kids) [] off = textContents (drop off kids)"
| "text_after (ElementNode tag attrs m kids) (i # p) off =
     (if i < length kids then text_after (kids ! i) p off @ textContents (drop (Suc i) kids)
      else [])"
| "text_after n p off = []"

text \<open>
  \<open>range.insertNode(node)\<close> for a node that is in no tree yet. In an element the node
  goes before the child at the start offset. A text node is split at the start offset
  and the node goes between the halves. The start of the range stays; a collapsed
  range ends after the new node, and the end of any other range moves with the nodes
  behind the insertion. The model also returns the reference to the inserted node,
  which the source's variable holds.
\<close>

definition shift_boundary ::
  "nat list \<Rightarrow> nat \<Rightarrow> nat \<Rightarrow> nat \<Rightarrow> nat list \<times> nat \<Rightarrow> nat list \<times> nat" where
  "shift_boundary par thr_off thr_kid d b =
     (case b of (p, off) \<Rightarrow>
        if p = par then (p, if thr_off \<le> off then off + d else off)
        else if length par < length p \<and> take (length par) p = par \<and> thr_kid \<le> p ! length par
        then (par @ (p ! length par + d) # drop (Suc (length par)) p, off)
        else (p, off))"

definition moved_end :: "range \<Rightarrow> (nat list \<times> nat \<Rightarrow> nat list \<times> nat) \<Rightarrow> range" where
  "moved_end rg f =
     (case endContainer rg of
        Within pe \<Rightarrow> (case f (pe, endOffset rg) of
                        (pe', eo') \<Rightarrow> rg\<lparr>endContainer := Within pe', endOffset := eo'\<rparr>)
      | _ \<Rightarrow> rg)"

definition insertNode :: "node \<Rightarrow> range \<Rightarrow> node \<Rightarrow> dom_exception + node \<times> range \<times> container" where
  "insertNode r rg node =
     (case startContainer rg of
        Within ps \<Rightarrow>
          (case node_at r ps of
             Some (ElementNode tag attrs m kids) \<Rightarrow>
               (let off = startOffset rg
                in Inr (map_kids ps (\<lambda>ks. take off ks @ node # drop off ks) r,
                        moved_end rg (shift_boundary ps off off 1),
                        Within (ps @ [off])))
           | Some (TextNode t) \<Rightarrow>
               (if ps = [] then Inl HierarchyRequestError
                else
                  (let q = butlast ps; i = last ps; off = startOffset rg
                   in Inr (map_kids q
                             (\<lambda>ks. take i ks @ [TextNode (take off t), node, TextNode (drop off t)]
                                     @ drop (Suc i) ks) r,
                           moved_end rg
                             (\<lambda>b. case b of (pe, eo) \<Rightarrow>
                                    if pe = ps then (if eo \<le> off then (q, i + 2)
                                                     else (q @ [i + 2], eo - off))
                                    else shift_boundary q (Suc i) (Suc i) 2 (pe, eo)),
                           Within (q @ [Suc i]))))
           | _ \<Rightarrow> Inl HierarchyRequestError)
      | _ \<Rightarrow> Inl HierarchyRequestError)"

text \<open>\<open>range.setStartAfter(node)\<close>: the start goes to the point after the node in its
  parent; a node without a parent throws.\<close>

definition setStartAfter :: "node \<Rightarrow> range \<Rightarrow> container \<Rightarrow> dom_exception + range" where
  "setStartAfter r rg node =
     (case node of
        Within p \<Rightarrow>
          (if p = [] then setStart r rg Document 1
           else setStart r rg (Within (butlast p)) (Suc (last p)))
      | _ \<Rightarrow> Inl InvalidNodeTypeError)"

subsection \<open>The image widget and its insertion (App.tsx 159-233)\<close>

text \<open>
  The SPAN that \<open>reader.onload\<close> builds, with the IMG and the delete button as its
  children. Of the attributes, the inline styles are left out. \<open>m\<close> are the sizes the
  browser reports for the image.
\<close>

definition no_metrics :: img_metrics where
  "no_metrics = \<lparr>naturalWidth = 0, width = 0, naturalHeight = 0, height = 0\<rparr>"

definition image_widget :: "jsstring \<Rightarrow> jsstring \<Rightarrow> jsstring \<Rightarrow> img_metrics \<Rightarrow> node" where
  "image_widget imageId base64 alt m =
     ElementNode ''SPAN''
       [(''class'', js ''inline-image''), (''data-image-id'', imageId),
        (''contenteditable'', js ''false'')]
       no_metrics
       [ElementNode ''IMG'' [(''src'', base64), (''alt'', alt)] m [],
        ElementNode ''BUTTON'' [(''class'', js ''inline-image-delete'')] no_metrics
          [TextNode [0x00D7]]]"

definition ZWSP :: node where
  "ZWSP = TextNode [0x200B]"

definition SPACE :: node where
  "SPACE = TextNode [0x0020]"

text \<open>
  Lines 159-233: \<open>getRangeAt(0)\<close> throws when the selection has no range; outside the
  editor nothing happens; else the range's content is deleted, the widget, the
  zero-width space and the space are inserted, each after the one before, and the
  selection becomes the range collapsed after the space.
\<close>

definition insert_image :: "node \<Rightarrow> editor \<Rightarrow> dom_exception + editor" where
  "insert_image imgWrapper ed =
     (case selection ed of
        None \<Rightarrow> Inl IndexSizeError
      | Some rg \<Rightarrow>
          if in_editor (startContainer rg) \<and> in_editor (endContainer rg) then
            (case deleteContents (element ed) rg of (r1, rg1) \<Rightarrow>
             case insertNode r1 rg1 imgWrapper of Inl e \<Rightarrow> Inl e | Inr (r2, rg2, w) \<Rightarrow>
             case setStartAfter r2 rg2 w of Inl e \<Rightarrow> Inl e | Inr rg3 \<Rightarrow>
             case insertNode r2 rg3 ZWSP of Inl e \<Rightarrow> Inl e | Inr (r3, rg4, textNode) \<Rightarrow>
             case setStartAfter r3 rg4 textNode of Inl e \<Rightarrow> Inl e | Inr rg5 \<Rightarrow>
             case insertNode r3 rg5 SPACE of Inl e \<Rightarrow> Inl e | Inr (r4, rg6, spaceNode) \<Rightarrow>
             case setStartAfter r4 rg6 spaceNode of Inl e \<Rightarrow> Inl e | Inr rg7 \<Rightarrow>
               Inr (addRange (collapse True rg7) (removeAllRanges (ed\<lparr>element := r4\<rparr>))))
          else Inr ed)"

text \<open>
  The rest of \<open>reader.onload\<close>: the focus timer, \<open>handleContentChange\<close> of the render
  in which the paste happened (with the flag that render saw), and the notification.
\<close>

definition msg_image_added :: jsstring where
  "msg_image_added = [0x56FE, 0x7247, 0x5DF2, 0x6DFB, 0x52A0]"

definition reader_onload ::
  "(node \<Rightarrow> jsstring) \<Rightarrow> bool \<Rightarrow> node \<Rightarrow> app \<Rightarrow> dom_exception + app" where
  "reader_onload innerHTML isComposing_seen imgWrapper st =
     (case editorRef st of
        None \<Rightarrow> Inr st
      | Some ed \<Rightarrow>
          (case insert_image imgWrapper ed of
             Inl e \<Rightarrow> Inl e
           | Inr ed' \<Rightarrow>
               (case selection ed of
                  Some rg \<Rightarrow>
                    if in_editor (startContainer rg) \<and> in_editor (endContainer rg) then
                      (let st1 = snd (setTimeout FocusEditor 10 (st\<lparr>editorRef := Some ed'\<rparr>));
                           st2 = handleContentChange innerHTML isComposing_seen st1
                       in Inr (showNotification msg_image_added Success st2))
                    else Inr st
                | None \<Rightarrow> Inr st)))"

subsection \<open>handlePaste and what its callbacks keep (App.tsx 143-248)\<close>

text \<open>
  For an image item \<open>handlePaste\<close> starts a \<open>FileReader\<close> when the ref is set; the
  image arrives later, in \<open>reader.onload\<close>. That function, and the \<open>onclick\<close> it gives
  to the delete button, are made in the render in which the paste happened and call
  the \<open>handleContentChange\<close> of that render. What they keep of the render is
  the value of \<open>isComposing\<close>.
\<close>

definition handlePaste :: "app \<Rightarrow> bool option" where
  "handlePaste st = (case editorRef st of None \<Rightarrow> None | Some ed \<Rightarrow> Some (isComposing st))"

section \<open>Runs of the component\<close>

text \<open>
  What happens to the mounted component, one event at a time: the browser changes the
  editable content or the selection (typing, a click, the removal of a widget by its
  delete button: any new tree, selection and focus); the events bound in the JSX
  (App.tsx 566-575); a call of \<open>handleContentChange\<close> by a function kept from the
  render of a paste, with the flag of that render; the load of a pasted image; the
  clear dialogue opened, cancelled or confirmed; a notification shown by the export
  or the copy; and time passing, with the timers that come due. An exception ends
  the function that is running.
\<close>

datatype event =
    Edit editor
  | Input
  | CompositionStart
  | CompositionEnd
  | Kept_handleContentChange bool
  | ImageLoaded bool node
  | ShowClearConfirm bool
  | Clear
  | Notify jsstring notification_type
  | Wait nat

fun step :: "(node \<Rightarrow> jsstring) \<Rightarrow> event \<Rightarrow> app \<Rightarrow> app" where
  "step innerHTML (Edit ed) st =
     (case editorRef st of None \<Rightarrow> st | Some ed0 \<Rightarrow> st\<lparr>editorRef := Some ed\<rparr>)"
| "step innerHTML Input st = onInput innerHTML st"
| "step innerHTML CompositionStart st = handleCompositionStart st"
| "step innerHTML CompositionEnd st = handleCompositionEnd st"
| "step innerHTML (Kept_handleContentChange seen) st = handleContentChange innerHTML seen st"
| "step innerHTML (ImageLoaded seen imgWrapper) st =
     (case reader_onload innerHTML seen imgWrapper st of Inl ex \<Rightarrow> st | Inr st' \<Rightarrow> st')"
| "step innerHTML (ShowClearConfirm b) st = st\<lparr>showClearConfirm := b\<rparr>"
| "step innerHTML Clear st = handleClear st"
| "step innerHTML (Notify msg ty) st = showNotification msg ty st"
| "step innerHTML (Wait d) st = advance_to innerHTML (clock st + d) st"

fun run_events :: "(node \<Rightarrow> jsstring) \<Rightarrow> event list \<Rightarrow> app \<Rightarrow> app" where
  "run_events innerHTML [] st = st"
| "run_events innerHTML (e # es) st = run_events innerHTML es (step innerHTML e st)"

subsection \<open>The shape of a stored value\<close>

text \<open>
  An object with exactly the fields \<open>htmlContent\<close>, a string, and \<open>timestamp\<close>, a
  number. \<open>saved_is_draft\<close>: the item found under the key at mount, if there is one
  and it is a JSON text, is such an object.
\<close>

definition is_draft :: "json \<Rightarrow> bool" where
  "is_draft v =
     (case v of
        JObject ps \<Rightarrow>
          distinct (map fst ps) \<and>
          set (map fst ps) = {js ''htmlContent'', js ''timestamp''} \<and>
          (case map_of ps (js ''htmlContent'') of Some (JString h) \<Rightarrow> True | _ \<Rightarrow> False) \<and>
          (case map_of ps (js ''timestamp'') of Some (JNumber t) \<Rightarrow> True | _ \<Rightarrow> False)
      | _ \<Rightarrow> False)"

definition saved_is_draft :: "stored option \<Rightarrow> bool" where
  "saved_is_draft saved =
     (case saved of
        None \<Rightarrow> True
      | Some text \<Rightarrow> (case JSON_parse text of None \<Rightarrow> True | Some v \<Rightarrow> is_draft v))"

text \<open>
  \<open>written P st\<close>: every \<open>setItem\<close> call so far has the key \<open>draftNote_content\<close> and the
  JSON text of a value with the property \<open>P\<close>.
\<close>

definition written :: "(json \<Rightarrow> bool) \<Rightarrow> app \<Rightarrow> bool" where
  "written P st \<longleftrightarrow>
     (\<forall>(k, x) \<in> set (setItem_calls st).
        k = js ''draftNote_content'' \<and> (case x of JSON_text v \<Rightarrow> P v | Other_text t \<Rightarrow> False))"

text \<open>
  \<open>closed_under_updates P\<close>: the property holds of every object literal of the
  component and is kept by its spread updates. \<open>holds_throughout P st\<close>: the two autosave
  invariants hold, the state object has the property and so has every value written
  so far.
\<close>

definition closed_under_updates :: "(json \<Rightarrow> bool) \<Rightarrow> bool" where
  "closed_under_updates P \<longleftrightarrow>
     (\<forall>prev h t. P prev \<longrightarrow> P (spread_update prev h t)) \<and> (\<forall>c. P (draft_object c))"

definition holds_throughout :: "(json \<Rightarrow> bool) \<Rightarrow> app \<Rightarrow> bool" where
  "holds_throughout P st \<longleftrightarrow>
     autosave_tracked st \<and> autosave_current st \<and> P (content st) \<and> written P st"


section \<open>Export size: the aspect-fit rule\<close>

lemma round_nearest_of_close:
  fixes f v :: rat and a b :: int
  assumes b: "0 < b" and v: "v = of_int a / of_int b"
    and close: "\<bar>f - v\<bar> < 1 / (2 * of_int b)"
  shows "\<bar>of_int (Math_round f) - v\<bar> \<le> 1 / 2"
proof -
  define n where "n = Math_round f"
  have n1: "of_int n \<le> f + 1 / 2" and n2: "f + 1 / 2 < of_int n + 1"
    unfolding n_def Math_round_def by linarith+
  have bpos: "(0::rat) < of_int b" using b by simp
  have vb: "v * of_int b = of_int a" using v bpos by simp
  have up: "v \<le> of_int n + 1 / 2"
  proof (rule ccontr)
    assume "\<not> v \<le> of_int n + 1 / 2"
    then have "of_int n + 1 / 2 < v" by simp
    then have "(of_int n + 1 / 2) * of_int b < v * of_int b"
      using bpos by (simp add: mult_strict_right_mono)
    then have "(of_int ((2 * n + 1) * b) :: rat) < of_int (2 * a)"
      using vb by (simp add: algebra_simps)
    then have "(2 * n + 1) * b < 2 * a" by (simp only: of_int_less_iff)
    then have "(2 * n + 1) * b + 1 \<le> 2 * a" by simp
    then have "(of_int ((2 * n + 1) * b + 1) :: rat) \<le> of_int (2 * a)"
      by (simp only: of_int_le_iff)
    then have "(2 * of_int n + 1) * of_int b + 1 \<le> 2 * (v * of_int b)"
      using vb by simp
    then have "of_int n + 1 / 2 + 1 / (2 * of_int b) \<le> v"
      using bpos by (simp add: field_simps)
    with n2 close show False by (simp add: abs_less_iff) 
  qed
  have lo: "of_int n - 1 / 2 \<le> v"
  proof (rule ccontr)
    assume "\<not> of_int n - 1 / 2 \<le> v"
    then have "v < of_int n - 1 / 2" by simp
    then have "v * of_int b < (of_int n - 1 / 2) * of_int b"
      using bpos by (simp add: mult_strict_right_mono)
    then have "(of_int (2 * a) :: rat) < of_int ((2 * n - 1) * b)"
      using vb by (simp add: algebra_simps)
    then have "2 * a < (2 * n - 1) * b" by (simp only: of_int_less_iff)
    then have "2 * a + 1 \<le> (2 * n - 1) * b" by simp
    then have "(of_int (2 * a + 1) :: rat) \<le> of_int ((2 * n - 1) * b)"
      by (simp only: of_int_le_iff)
    then have "2 * (v * of_int b) + 1 \<le> (2 * of_int n - 1) * of_int b"
      using vb by simp
    then have "v + 1 / (2 * of_int b) \<le> of_int n - 1 / 2"
      using bpos by (simp add: field_simps)
    with n1 close show False by (simp add: abs_less_iff)
  qed
  from up lo show ?thesis unfolding n_def by linarith
qed


lemma eps_range: "0 < eps" "eps < 1 / 2"
  by (simp_all add: eps_def)

lemma fl_bounds:
  assumes "fl_ok fl" and "1 / 2 ^ 64 \<le> x" and "x \<le> 2 ^ 64"
  shows "x * (1 - eps) \<le> fl x" and "fl x \<le> x * (1 + eps)"
proof -
  have "1 / 2 ^ 64 \<le> x \<and> x \<le> 2 ^ 64 \<longrightarrow> \<bar>fl x - x\<bar> \<le> x * eps"
    using assms(1) unfolding fl_ok_def by (rule spec)
  then have "\<bar>fl x - x\<bar> \<le> x * eps" using assms(2,3) by blast
  then have "fl x - x \<le> x * eps" and "x - fl x \<le> x * eps" by linarith+
  then show "x * (1 - eps) \<le> fl x" and "fl x \<le> x * (1 + eps)"
    by (simp_all add: algebra_simps)
qed

lemma scaled_close:
  fixes d a b :: rat
  assumes ok: "fl_ok fl" and d: "1 \<le> d" "d \<le> 2 ^ 32"
    and a: "1 / 2 ^ 32 \<le> a" "a \<le> 600" and b: "1 / 2 ^ 32 \<le> b" "b \<le> 600"
  shows "d * min a b * (1 - eps) * (1 - eps) \<le> fl (d * min (fl a) (fl b))"
    and "fl (d * min (fl a) (fl b)) \<le> d * min a b * (1 + eps) * (1 + eps)"
proof -
  note e = eps_range
  have e1: "0 \<le> 1 - eps" "0 \<le> 1 + eps" using e by simp_all
  have low: "(1::rat) / 2 ^ 64 \<le> 1 / 2 ^ 32" and high: "(600::rat) \<le> 2 ^ 64" by simp_all
  have ra: "1 / 2 ^ 64 \<le> a" "a \<le> 2 ^ 64" and rb: "1 / 2 ^ 64 \<le> b" "b \<le> 2 ^ 64"
    using a b low high by linarith+
  have la: "a * (1 - eps) \<le> fl a" and ua: "fl a \<le> a * (1 + eps)"
    using fl_bounds[OF ok ra] by simp_all
  have lb: "b * (1 - eps) \<le> fl b" and ub: "fl b \<le> b * (1 + eps)"
    using fl_bounds[OF ok rb] by simp_all
  have mm1: "min a b * (1 - eps) = min (a * (1 - eps)) (b * (1 - eps))"
    using e1 by (simp add: min_mult_distrib_right)
  have mm2: "min a b * (1 + eps) = min (a * (1 + eps)) (b * (1 + eps))"
    using e1 by (simp add: min_mult_distrib_right)
  have m1: "min a b * (1 - eps) \<le> min (fl a) (fl b)"
    unfolding mm1 using la lb by (simp add: min_le_iff_disj)
  have m2: "min (fl a) (fl b) \<le> min a b * (1 + eps)"
    unfolding mm2 using ua ub by (simp add: min_le_iff_disj)
  have mab: "1 / 2 ^ 32 \<le> min a b" "min a b \<le> 600" using a b by simp_all
  have half: "(1::rat) / 2 \<le> 1 - eps" and two: "1 + eps \<le> (2::rat)" using e by simp_all
  have "(1 / 2 ^ 32) * (1 / 2) \<le> min a b * (1 - eps)"
    using mab(1) half by (intro mult_mono) simp_all
  then have rho_lo: "1 / 2 ^ 33 \<le> min (fl a) (fl b)" using m1 by simp
  have "min a b * (1 + eps) \<le> 600 * 2"
    using mab two a(1) b(1) e1 by (intro mult_mono) simp_all
  then have rho_hi: "min (fl a) (fl b) \<le> 1200" using m2 by simp
  have rho0: "0 \<le> min (fl a) (fl b)" using rho_lo by (rule order_trans[rotated]) simp
  have "1 * (1 / 2 ^ 33) \<le> d * min (fl a) (fl b)"
    using d(1) rho_lo by (intro mult_mono) simp_all
  then have p_lo: "1 / 2 ^ 64 \<le> d * min (fl a) (fl b)" by simp
  have "d * min (fl a) (fl b) \<le> 2 ^ 32 * 1200"
    using d rho_hi rho0 by (intro mult_mono) simp_all
  then have p_hi: "d * min (fl a) (fl b) \<le> 2 ^ 64" by simp
  have d0: "0 \<le> d" using d(1) by simp
  have p1: "d * min a b * (1 - eps) \<le> d * min (fl a) (fl b)"
    using mult_left_mono[OF m1 d0] by (simp add: algebra_simps)
  have p2: "d * min (fl a) (fl b) \<le> d * min a b * (1 + eps)"
    using mult_left_mono[OF m2 d0] by (simp add: algebra_simps)
  have "d * min a b * (1 - eps) * (1 - eps) \<le> d * min (fl a) (fl b) * (1 - eps)"
    using p1 e1(1) by (rule mult_right_mono)
  also have "\<dots> \<le> fl (d * min (fl a) (fl b))"
    using fl_bounds(1)[OF ok p_lo p_hi] .
  finally show "d * min a b * (1 - eps) * (1 - eps) \<le> fl (d * min (fl a) (fl b))" .
  have "fl (d * min (fl a) (fl b)) \<le> d * min (fl a) (fl b) * (1 + eps)"
    using fl_bounds(2)[OF ok p_lo p_hi] .
  also have "\<dots> \<le> d * min a b * (1 + eps) * (1 + eps)"
    using p2 e1(2) by (rule mult_right_mono)
  finally show "fl (d * min (fl a) (fl b)) \<le> d * min a b * (1 + eps) * (1 + eps)" .
qed

lemma eps_sq_bounds:
  "1 - 3 * eps \<le> (1 - eps) * (1 - eps)" "(1 + eps) * (1 + eps) \<le> 1 + 3 * eps"
  by (simp_all add: eps_def)

text \<open>The computed scaled dimension is within \<open>1 / 2^33\<close> of the exact one.\<close>
lemma scaled_error:
  fixes d a b :: rat
  assumes ok: "fl_ok fl" and d: "1 \<le> d" "d \<le> 2 ^ 32"
    and a: "1 / 2 ^ 32 \<le> a" "a \<le> 600" and b: "1 / 2 ^ 32 \<le> b" "b \<le> 600"
    and v: "d * min a b \<le> 600"
  shows "\<bar>fl (d * min (fl a) (fl b)) - d * min a b\<bar> < 1 / 2 ^ 33"
proof -
  define v where "v = d * min a b"
  define f where "f = fl (d * min (fl a) (fl b))"
  have "(0::rat) \<le> 1 / 2 ^ 32" by simp
  then have "0 \<le> min a b" using a(1) b(1) by simp
  then have v0: "0 \<le> v" using d(1) by (simp add: v_def)
  have v6: "v \<le> 600" using v by (simp add: v_def)
  have "v * (1 - eps) * (1 - eps) \<le> f" and "f \<le> v * (1 + eps) * (1 + eps)"
    using scaled_close[OF ok d a b] by (simp_all add: v_def f_def)
  moreover have "v * (1 - 3 * eps) \<le> v * ((1 - eps) * (1 - eps))"
    using v0 eps_sq_bounds(1) by (rule mult_left_mono[rotated])
  moreover have "v * ((1 + eps) * (1 + eps)) \<le> v * (1 + 3 * eps)"
    using v0 eps_sq_bounds(2) by (rule mult_left_mono[rotated])
  ultimately have "v - v * (3 * eps) \<le> f" and "f \<le> v + v * (3 * eps)"
    by (simp_all add: algebra_simps)
  moreover have "v * (3 * eps) \<le> 600 * (3 * eps)"
    using v6 eps_range(1) by (intro mult_right_mono) simp_all
  moreover have "600 * (3 * eps) < 1 / 2 ^ 33" by (simp add: eps_def)
  ultimately have "\<bar>f - v\<bar> < 1 / 2 ^ 33" by linarith
  then show ?thesis by (simp add: v_def f_def)
qed


lemma scale_exact_width:
  fixes ow oh :: nat
  assumes "0 < ow" "0 < oh"
  shows "(of_nat ow :: rat) * min (600 / of_nat ow) (450 / of_nat oh)
         = of_int (min (600 * int oh) (450 * int ow)) / of_int (int oh)"
  using assms by (simp add: min_def field_simps)

lemma scale_exact_height:
  fixes ow oh :: nat
  assumes "0 < ow" "0 < oh"
  shows "(of_nat oh :: rat) * min (600 / of_nat ow) (450 / of_nat oh)
         = of_int (min (600 * int oh) (450 * int ow)) / of_int (int ow)"
  using assms by (simp add: min_def field_simps)

lemma scaled_round:
  fixes d a b :: rat and k :: nat and n :: int
  assumes ok: "fl_ok fl" and d: "1 \<le> d" "d \<le> 2 ^ 32"
    and a: "1 / 2 ^ 32 \<le> a" "a \<le> 600" and b: "1 / 2 ^ 32 \<le> b" "b \<le> 600"
    and v: "d * min a b \<le> of_int M" and M: "M \<le> 600"
    and q: "d * min a b = of_int n / of_int (int k)" and k: "0 < k" "k < 2 ^ 32"
  shows "nearest_integer (d * min a b) (Math_round (fl (d * min (fl a) (fl b))))"
    and "0 \<le> Math_round (fl (d * min (fl a) (fl b)))"
    and "Math_round (fl (d * min (fl a) (fl b))) \<le> M"
proof -
  define f where "f = fl (d * min (fl a) (fl b))"
  define v where "v = d * min a b"
  have "(of_int M :: rat) \<le> 600" using M by simp
  then have "v \<le> 600" using v unfolding v_def by linarith
  then have err: "\<bar>f - v\<bar> < 1 / 2 ^ 33"
    unfolding f_def v_def using scaled_error[OF ok d a b] by simp
  have "2 * k < 2 ^ 33" using k by simp
  then have "(of_nat (2 * k) :: rat) < of_nat (2 ^ 33)" by (simp only: of_nat_less_iff)
  then have "(2::rat) * of_int (int k) < 2 ^ 33" by simp
  moreover have "(0::rat) < 2 * of_int (int k)" using k by simp
  ultimately have "(1::rat) / 2 ^ 33 < 1 / (2 * of_int (int k))"
    by (simp add: frac_less2)
  with err have close: "\<bar>f - v\<bar> < 1 / (2 * of_int (int k))" by linarith
  have "\<bar>of_int (Math_round f) - v\<bar> \<le> 1 / 2"
    by (rule round_nearest_of_close[OF _ _ close]) (use k q in \<open>simp_all add: v_def\<close>)
  then show "nearest_integer (d * min a b) (Math_round (fl (d * min (fl a) (fl b))))"
    by (simp add: nearest_integer_def f_def v_def)
  have "(0::rat) \<le> 1 / 2 ^ 32" by simp
  then have "0 \<le> min a b" using a(1) b(1) by simp
  then have v0: "0 \<le> v" using d(1) by (simp add: v_def)
  have small: "(1::rat) / 2 ^ 33 < 1 / 2" by simp
  have "0 \<le> f + 1 / 2" using err v0 small by linarith
  then show "0 \<le> Math_round (fl (d * min (fl a) (fl b)))"
    by (simp add: Math_round_def f_def)
  have vM: "v \<le> of_int M" using v by (simp only: v_def)
  have "f + 1 / 2 < of_int M + 1" using err vM small by linarith
  then have "f + 1 / 2 < of_int (M + 1)" by simp
  then have "\<lfloor>f + 1 / 2\<rfloor> < M + 1" by (simp only: floor_less_iff)
  then show "Math_round (fl (d * min (fl a) (fl b))) \<le> M"
    by (simp add: Math_round_def f_def)
qed

lemma export_size_within:
  assumes "ow \<le> 600" "oh \<le> 450"
  shows "export_size fl ow oh = (int ow, int oh)"
  using assms by (simp add: export_size_def maxWidth_def maxHeight_def)

lemma export_size_scaled:
  assumes ok: "fl_ok fl" and ow: "0 < ow" "ow < 2 ^ 32" and oh: "0 < oh" "oh < 2 ^ 32"
    and big: "\<not> (ow \<le> 600 \<and> oh \<le> 450)"
  defines "r \<equiv> min (600 / of_nat ow) (450 / of_nat oh) :: rat"
  shows "nearest_integer (of_nat ow * r) (fst (export_size fl ow oh))"
    and "nearest_integer (of_nat oh * r) (snd (export_size fl ow oh))"
    and "0 \<le> fst (export_size fl ow oh)" and "fst (export_size fl ow oh) \<le> 600"
    and "0 \<le> snd (export_size fl ow oh)" and "snd (export_size fl ow oh) \<le> 450"
proof -
  let ?a = "600 / of_nat ow :: rat" and ?b = "450 / of_nat oh :: rat"
  have dw: "(0::rat) < of_nat ow" and dh: "(0::rat) < of_nat oh" using ow oh by simp_all
  have dw1: "(1::rat) \<le> of_nat ow" and dh1: "(1::rat) \<le> of_nat oh" using ow oh by simp_all
  have "(of_nat ow :: rat) \<le> of_nat (2 ^ 32)" using ow(2) by (simp only: of_nat_le_iff)
  then have dw2: "(of_nat ow :: rat) \<le> 2 ^ 32" by simp
  have "(of_nat oh :: rat) \<le> of_nat (2 ^ 32)" using oh(2) by (simp only: of_nat_le_iff)
  then have dh2: "(of_nat oh :: rat) \<le> 2 ^ 32" by simp
  have a: "1 / 2 ^ 32 \<le> ?a" "?a \<le> 600"
    using dw dw1 dw2 by (simp_all add: field_simps)
  have b: "1 / 2 ^ 32 \<le> ?b" "?b \<le> 600"
    using dh dh1 dh2 by (simp_all add: field_simps)
  have fst_eq: "fst (export_size fl ow oh) = Math_round (fl (of_nat ow * min (fl ?a) (fl ?b)))"
    and snd_eq: "snd (export_size fl ow oh) = Math_round (fl (of_nat oh * min (fl ?a) (fl ?b)))"
    using big by (auto simp: export_size_def maxWidth_def maxHeight_def Let_def)
  have "of_nat ow * min ?a ?b \<le> of_nat ow * ?a"
    using dw by (intro mult_left_mono) simp_all
  moreover have "of_nat ow * ?a = 600" using dw by simp
  ultimately have vw: "of_nat ow * min ?a ?b \<le> of_int 600" by simp
  have "of_nat oh * min ?a ?b \<le> of_nat oh * ?b"
    using dh by (intro mult_left_mono) simp_all
  moreover have "of_nat oh * ?b = 450" using dh by simp
  ultimately have vh: "of_nat oh * min ?a ?b \<le> of_int 450" by simp
  note W = scaled_round[OF ok dw1 dw2 a b vw _ scale_exact_width[OF ow(1) oh(1)] oh]
  note H = scaled_round[OF ok dh1 dh2 a b vh _ scale_exact_height[OF ow(1) oh(1)] ow]
  show "nearest_integer (of_nat ow * r) (fst (export_size fl ow oh))"
    unfolding fst_eq r_def by (rule W(1)) simp
  show "nearest_integer (of_nat oh * r) (snd (export_size fl ow oh))"
    unfolding snd_eq r_def by (rule H(1)) simp
  show "0 \<le> fst (export_size fl ow oh)" unfolding fst_eq by (rule W(2)) simp
  show "fst (export_size fl ow oh) \<le> 600" unfolding fst_eq by (rule W(3)) simp
  show "0 \<le> snd (export_size fl ow oh)" unfolding snd_eq by (rule H(2)) simp
  show "snd (export_size fl ow oh) \<le> 450" unfolding snd_eq by (rule H(3)) simp
qed


lemma nearest_integer_int: "nearest_integer (of_int k) n \<Longrightarrow> n = k"
proof -
  assume "nearest_integer (of_int k) n"
  then have "\<bar>(of_int (n - k) :: rat)\<bar> \<le> 1 / 2" by (simp add: nearest_integer_def)
  then have "\<bar>(of_int (n - k) :: rat)\<bar> < of_int 1" by simp
  then have "\<bar>n - k\<bar> < 1" by (simp only: of_int_less_iff flip: of_int_abs)
  then show "n = k" by simp
qed

lemma originalWidth_range: "0 < originalWidth m" "originalWidth m < 2 ^ 32"
  using unsigned_less[of "naturalWidth m", where 'a = nat] unsigned_less[of "width m", where 'a = nat]
  by (auto simp: originalWidth_def js_or_def)

lemma originalHeight_range: "0 < originalHeight m" "originalHeight m < 2 ^ 32"
  using unsigned_less[of "naturalHeight m", where 'a = nat] unsigned_less[of "height m", where 'a = nat]
  by (auto simp: originalHeight_def js_or_def)

lemma export_size_bound:
  assumes ok: "fl_ok fl" and ow: "0 < ow" "ow < 2 ^ 32" and oh: "0 < oh" "oh < 2 ^ 32"
  shows "0 \<le> fst (export_size fl ow oh) \<and> fst (export_size fl ow oh) \<le> 600 \<and>
         0 \<le> snd (export_size fl ow oh) \<and> snd (export_size fl ow oh) \<le> 450"
proof (cases "ow \<le> 600 \<and> oh \<le> 450")
  case True
  then show ?thesis by (simp add: export_size_within)
next
  case False
  show ?thesis using export_size_scaled(3-6)[OF ok ow oh False] by simp
qed

lemma children_push [simp]: "children (push p st) = children st @ [p]"
  by (simp add: push_def)

lemma console_push [simp]: "console (push p st) = console st"
  by (simp add: push_def)

lemma process_image_cases:
  "children (process_image fl attrs m st) = children st \<or>
   (\<exists>bytes. children (process_image fl attrs m st) =
      children st @ [Paragraph [ImageRun bytes (fst (export_size fl (originalWidth m) (originalHeight m)))
                                              (snd (export_size fl (originalWidth m) (originalHeight m)))]])"
  by (auto simp: process_image_def Let_def split: option.splits prod.splits)

lemma process_image_bound:
  assumes ok: "fl_ok fl" and "\<forall>p \<in> set (children st). within_bound p"
  shows "\<forall>p \<in> set (children (process_image fl attrs m st)). within_bound p"
proof -
  note B = export_size_bound[OF ok originalWidth_range originalHeight_range, of m m]
  from process_image_cases[of fl attrs m st] show ?thesis
  proof
    assume "children (process_image fl attrs m st) = children st"
    then show ?thesis using assms(2) by simp
  next
    assume "\<exists>bytes. children (process_image fl attrs m st) =
      children st @ [Paragraph [ImageRun bytes (fst (export_size fl (originalWidth m) (originalHeight m)))
                                              (snd (export_size fl (originalWidth m) (originalHeight m)))]]"
    then show ?thesis using assms(2) B by (auto simp: within_bound_def)
  qed
qed

lemma within_bound_text: "within_bound (Paragraph [TextRun t])"
  by (simp add: within_bound_def)

lemma push_bound:
  "\<forall>p \<in> set (children st). within_bound p \<Longrightarrow> within_bound q \<Longrightarrow>
   \<forall>p \<in> set (children (push q st)). within_bound p"
  by simp

lemma push_lines_bound:
  "\<forall>p \<in> set (children st). within_bound p \<Longrightarrow>
   \<forall>p \<in> set (children (push_lines ls st)). within_bound p"
proof (induction ls arbitrary: st)
  case Nil
  then show ?case by simp
next
  case (Cons l ls)
  have "\<forall>p \<in> set (children (if trim l \<noteq> [] then push (Paragraph [TextRun l]) st else st)).
          within_bound p"
    using Cons.prems push_bound[OF Cons.prems within_bound_text] by (simp del: children_push)
  then show ?case using Cons.IH by (simp del: children_push)
qed

lemma processNode_IMG:
  "processNode fl (ElementNode ''IMG'' attrs m kids) st = process_image fl attrs m st"
  by simp

lemma processNode_inline_image:
  "js ''inline-image'' \<in> set (classList attrs) \<Longrightarrow>
   processNode fl (ElementNode ''SPAN'' attrs m kids) st =
     (case querySelector_img kids of
        Some (ElementNode itag iattrs im ikids) \<Rightarrow> process_image fl iattrs im st
      | _ \<Rightarrow> st)"
  by simp

lemma processNode_block:
  "tag = ''DIV'' \<or> tag = ''P'' \<Longrightarrow>
   processNode fl (ElementNode tag attrs m kids) st = processNodes fl kids st"
  by auto

lemma processNode_other:
  "tag \<noteq> ''IMG'' \<Longrightarrow> \<not> (tag = ''SPAN'' \<and> js ''inline-image'' \<in> set (classList attrs)) \<Longrightarrow>
   \<not> (tag = ''DIV'' \<or> tag = ''P'') \<Longrightarrow>
   processNode fl (ElementNode tag attrs m kids) st =
     (if trim (textContents kids) \<noteq> [] then push (Paragraph [TextRun (trim (textContents kids))]) st
      else st)"
  by (auto simp: Let_def)

lemma processNode_bound:
  shows "fl_ok fl \<Longrightarrow> \<forall>p \<in> set (children st). within_bound p \<Longrightarrow>
           \<forall>p \<in> set (children (processNode fl n st)). within_bound p"
    and "fl_ok fl \<Longrightarrow> \<forall>p \<in> set (children st). within_bound p \<Longrightarrow>
           \<forall>p \<in> set (children (processNodes fl ns st)). within_bound p"
proof (induction fl n st and fl ns st rule: processNode_processNodes.induct)
  case (1 fl t st)
  show ?case using push_lines_bound[OF "1.prems"(2)] "1.prems"(2)
    by (simp add: Let_def del: children_push)
next
  case (2 fl tag attrs m kids st)
  note okfl = "2.prems"(1) and st = "2.prems"(2)
  show ?case
  proof (cases "tag = ''IMG''")
    case True
    show ?thesis using process_image_bound[OF okfl st]
      unfolding True processNode_IMG by blast
  next
    case notimg: False
    show ?thesis
    proof (cases "tag = ''SPAN'' \<and> js ''inline-image'' \<in> set (classList attrs)")
      case True
      then have eq: "processNode fl (ElementNode tag attrs m kids) st =
        (case querySelector_img kids of
           Some (ElementNode itag iattrs im ikids) \<Rightarrow> process_image fl iattrs im st
         | _ \<Rightarrow> st)"
        using processNode_inline_image by blast
      show ?thesis unfolding eq using process_image_bound[OF okfl st] st
        by (cases "querySelector_img kids"; simp split: node.splits)
    next
      case notspan: False
      show ?thesis
      proof (cases "tag = ''DIV'' \<or> tag = ''P''")
        case True
        show ?thesis using "2.IH"[OF notimg notspan True "2.prems"]
          by (simp only: processNode_block[OF True])
      next
        case False
        show ?thesis
        proof (cases "trim (textContents kids) \<noteq> []")
          case True
          show ?thesis using push_bound[OF st within_bound_text]
            unfolding processNode_other[OF notimg notspan False] if_P[OF True] by blast
        next
          case False
          show ?thesis using st
            unfolding processNode_other[OF notimg notspan \<open>\<not> (tag = ''DIV'' \<or> tag = ''P'')\<close>]
              if_not_P[OF False] .
        qed
      qed
    qed
  qed
next
  case (3 fl st)
  then show ?case by (simp only: processNode.simps)
next
  case (4 fl st)
  then show ?case by (simp only: processNodes.simps)
next
  case (5 fl n ns st)
  show ?case using "5.IH"(2)[OF "5.prems"(1) "5.IH"(1)[OF "5.prems"]]
    by (simp only: processNodes.simps)
qed


lemma export_size_examples:
  assumes ok: "fl_ok fl"
  shows "export_size fl 1200 300 = (600, 150)"
    and "export_size fl 300 200 = (300, 200)"
    and "export_size fl 800 900 = (400, 450)"
proof -
  have A: "nearest_integer (of_nat 1200 * min (600 / of_nat 1200) (450 / of_nat 300)) (fst (export_size fl 1200 300))"
    "nearest_integer (of_nat 300 * min (600 / of_nat 1200) (450 / of_nat 300)) (snd (export_size fl 1200 300))"
    by (rule export_size_scaled[OF ok]; simp)+
  have "nearest_integer (of_int 600) (fst (export_size fl 1200 300))"
    and "nearest_integer (of_int 150) (snd (export_size fl 1200 300))"
    using A by simp_all
  then show "export_size fl 1200 300 = (600, 150)"
    using nearest_integer_int by (metis prod.collapse)
  show "export_size fl 300 200 = (300, 200)" by (simp add: export_size_within)
  have B: "nearest_integer (of_nat 800 * min (600 / of_nat 800) (450 / of_nat 900)) (fst (export_size fl 800 900))"
    "nearest_integer (of_nat 900 * min (600 / of_nat 800) (450 / of_nat 900)) (snd (export_size fl 800 900))"
    by (rule export_size_scaled[OF ok]; simp)+
  have "nearest_integer (of_int 400) (fst (export_size fl 800 900))"
    and "nearest_integer (of_int 450) (snd (export_size fl 800 900))"
    using B by simp_all
  then show "export_size fl 800 900 = (400, 450)"
    using nearest_integer_int by (metis prod.collapse)
qed

text \<open>
  Rounding to a double keeps the relative error within \<open>2^-53\<close>: the distance to the
  nearest multiple of \<open>2^(e-52)\<close> is at most \<open>2^(e-53)\<close>, and \<open>2^e \<le> x\<close>.
\<close>

lemma round_half_even_close: "\<bar>of_int (round_half_even y) - y\<bar> \<le> 1 / 2"
proof -
  have "of_int \<lfloor>y\<rfloor> \<le> y" and "y < of_int \<lfloor>y\<rfloor> + 1" by linarith+
  then show ?thesis by (auto simp: round_half_even_def Let_def)
qed

lemma binade_le: "1 / 2 ^ 64 \<le> x \<Longrightarrow> 2 powi (binade n x) \<le> x"
proof (induction n)
  case 0
  then show ?case by (simp add: power_int_minus field_simps)
next
  case (Suc n)
  then show ?case by simp
qed

lemma double_ok: "fl_ok double"
  unfolding fl_ok_def
proof (intro allI impI)
  fix x :: rat
  assume r: "1 / 2 ^ 64 \<le> x \<and> x \<le> 2 ^ 64"
  define e where "e = binade 128 x"
  define u :: rat where "u = 2 powi (e - 52)"
  have u0: "0 < u" by (simp add: u_def)
  have ex: "2 powi e \<le> x" unfolding e_def using r by (intro binade_le) simp
  have d: "double x = of_int (round_half_even (x / u)) * u"
    using r by (simp add: double_def Let_def e_def u_def)
  have "double x - x = (of_int (round_half_even (x / u)) - x / u) * u"
    using u0 by (simp add: d field_simps)
  then have "\<bar>double x - x\<bar> = \<bar>of_int (round_half_even (x / u)) - x / u\<bar> * u"
    using u0 by (simp add: abs_mult)
  also have "\<dots> \<le> (1 / 2) * u"
    using round_half_even_close[of "x / u"] u0 by (intro mult_right_mono) simp_all
  also have "(1 / 2) * u = 2 powi e * eps"
    by (simp add: u_def eps_def power_int_diff)
  also have "\<dots> \<le> x * eps" using ex by (intro mult_right_mono) (simp_all add: eps_def)
  finally show "\<bar>double x - x\<bar> \<le> x * eps" .
qed




section \<open>Export of text nodes, of images without a data URI, and of an empty draft\<close>

lemma push_lines_children:
  "children (push_lines ls st) =
     children st @ map (\<lambda>l. Paragraph [TextRun l]) (filter (\<lambda>l. trim l \<noteq> []) ls)"
  by (induction ls arbitrary: st) simp_all

lemma push_lines_console: "console (push_lines ls st) = console st"
  by (induction ls arbitrary: st) simp_all

lemma trim_Nil [simp]: "trim [] = []"
  by (simp add: trim_def)

lemma processNode_text_children:
  "children (processNode fl (TextNode t) st) =
     children st @ map (\<lambda>l. Paragraph [TextRun l]) (filter (\<lambda>l. trim l \<noteq> []) (split LF (trim t)))"
proof (cases "trim t = []")
  case True
  then show ?thesis by (simp add: LF_def)
next
  case False
  then show ?thesis by (simp add: push_lines_children)
qed


lemma processNode_text_console: "console (processNode fl (TextNode t) st) = console st"
  by (simp add: Let_def push_lines_console)

lemma js_line_one_two:
  "trim (js ''line one\<newline>line two'') = js ''line one\<newline>line two''"
  "split LF (js ''line one\<newline>line two'') = [js ''line one'', js ''line two'']"
  "trim (js ''line one'') = js ''line one''"
  "trim (js ''line two'') = js ''line two''"
  "js ''line one'' \<noteq> []" "js ''line two'' \<noteq> []"
  by (simp_all add: js_def trim_def is_whitespace_def LF_def)

text \<open>
  C2 (as amended). A text node's data is trimmed as a whole and split at LF; each line
  that is not all whitespace becomes exactly one paragraph of exactly one run, in
  order, and the run's text is the line as it stands (only the start of the first line
  and the end of the last have lost their whitespace); an all-whitespace line gives no
  paragraph, and nothing is logged. A snapshot that parses to the one text node
  "line one\nline two" exports as the two paragraphs "line one" and "line two".
\<close>

theorem text_node_paragraphs:
  "children (processNode fl (TextNode t) st) =
     children st @
       map (\<lambda>l. Paragraph [TextRun l]) (filter (\<lambda>l. trim l \<noteq> []) (split LF (trim t))) \<and>
   console (processNode fl (TextNode t) st) = console st \<and>
   (editorRef a \<noteq> None \<and>
    get_htmlContent (content a) = Inr (Some (JString (js ''line one\<newline>line two''))) \<and>
    parse (js ''line one\<newline>line two'') = [TextNode (js ''line one\<newline>line two'')] \<longrightarrow>
      handleExportWord parse fl a =
        Inr \<lparr>children = [Paragraph [TextRun (js ''line one'')], Paragraph [TextRun (js ''line two'')]],
             console = []\<rparr>)"
proof -
  have ex: "handleExportWord parse fl a =
        Inr \<lparr>children = [Paragraph [TextRun (js ''line one'')], Paragraph [TextRun (js ''line two'')]],
             console = []\<rparr>"
    if m: "editorRef a \<noteq> None"
      and h: "get_htmlContent (content a) = Inr (Some (JString (js ''line one\<newline>line two'')))"
      and p: "parse (js ''line one\<newline>line two'') = [TextNode (js ''line one\<newline>line two'')]"
  proof -
    have ne: "js ''line one\<newline>line two'' \<noteq> []" by (simp add: js_def)
    let ?r = "processNodes fl (parse (js ''line one\<newline>line two'')) \<lparr>children = [], console = []\<rparr>"
    have c: "children ?r
        = [Paragraph [TextRun (js ''line one'')], Paragraph [TextRun (js ''line two'')]]"
      unfolding p by (simp add: processNode_text_children js_line_one_two del: processNode.simps)
    have k: "console ?r = []"
      unfolding p by (simp add: processNode_text_console del: processNode.simps)
    have r: "?r = \<lparr>children = [Paragraph [TextRun (js ''line one'')], Paragraph [TextRun (js ''line two'')]],
             console = []\<rparr>"
      using c k by (cases ?r) simp
    have f: "finish_export ?r = ?r" using c by (simp add: finish_export_def)
    have "handleExportWord parse fl a = Inr (finish_export ?r)"
      using m h ne by (auto simp: handleExportWord_def Let_def split: option.splits)
    then show ?thesis using f r by simp
  qed
  show ?thesis using processNode_text_children processNode_text_console ex by blast
qed

theorem text_node_paragraphs_witness:
  "handleExportWord (\<lambda>s. [TextNode s]) (\<lambda>x. x)
      ((initial_app 0 \<lparr>element = ElementNode ''DIV'' [] \<lparr>naturalWidth = 0, width = 0, naturalHeight = 0, height = 0\<rparr> [],
                        selection = None, focused = False\<rparr>)
         \<lparr>content := draft_object \<lparr>htmlContent = js ''line one\<newline>line two'', timestamp = 0\<rparr>\<rparr>)
     = Inr \<lparr>children = [Paragraph [TextRun (js ''line one'')], Paragraph [TextRun (js ''line two'')]],
            console = []\<rparr>"
proof -
  let ?a = "(initial_app 0 \<lparr>element = ElementNode ''DIV'' [] \<lparr>naturalWidth = 0, width = 0, naturalHeight = 0, height = 0\<rparr> [],
                        selection = None, focused = False\<rparr>)
         \<lparr>content := draft_object \<lparr>htmlContent = js ''line one\<newline>line two'', timestamp = 0\<rparr>\<rparr>"
  have m: "editorRef ?a \<noteq> None" by (simp add: initial_app_def autosave_effect_def setTimeout_def)
  have h: "get_htmlContent (content ?a) = Inr (Some (JString (js ''line one\<newline>line two'')))"
    by (simp add: get_htmlContent_def draft_object_def js_def)
  show ?thesis
    using text_node_paragraphs[of "\<lambda>x. x" "[]" "\<lparr>children = [], console = []\<rparr>" ?a "\<lambda>s. [TextNode s]"] m h
    by simp
qed

text \<open>
  C2 as the specification words it (every run holds its line trimmed) fails: for the
  text "a \nb" the code emits the run "a " with its trailing space.
\<close>

theorem text_node_paragraphs_counterexample:
  "children (processNode id (TextNode (js ''a \<newline>b'')) \<lparr>children = [], console = []\<rparr>)
     = [Paragraph [TextRun (js ''a '')], Paragraph [TextRun (js ''b'')]] \<and>
   spec_text_paragraphs (js ''a \<newline>b'')
     = [Paragraph [TextRun (js ''a'')], Paragraph [TextRun (js ''b'')]] \<and>
   children (processNode id (TextNode (js ''a \<newline>b'')) \<lparr>children = [], console = []\<rparr>)
     \<noteq> spec_text_paragraphs (js ''a \<newline>b'')"
  by (simp add: spec_text_paragraphs_def js_def trim_def is_whitespace_def LF_def)


lemma get_htmlContent_draft [simp]:
  "get_htmlContent (draft_object c) = Inr (Some (JString (htmlContent c)))"
  by (simp add: get_htmlContent_def draft_object_def js_def)

text \<open>
  C3. When the traversal yields no paragraph (the ref is unset, the snapshot is the
  empty string, or the walk of the parsed snapshot pushes nothing), the exported
  document has exactly one paragraph, of exactly one run, whose text is one space. In
  particular this is the export of the empty snapshot. The same holds when the state
  is not of the interface's shape: \<open>content.htmlContent\<close> is \<open>undefined\<close> or another
  value that counts as false, or the walk of its markup pushes nothing.
\<close>

theorem empty_export_single_space:
  "(content st = draft_object c \<and>
    (editorRef st = None \<or> htmlContent c = [] \<or>
     children (processNodes fl (parse (htmlContent c)) \<lparr>children = [], console = []\<rparr>) = [])
      \<longrightarrow> (\<exists>r. handleExportWord parse fl st = Inr r \<and>
                children r = [Paragraph [TextRun (js '' '')]])) \<and>
   (content st = draft_object c \<and> htmlContent c = [] \<longrightarrow>
      handleExportWord parse fl st =
        Inr \<lparr>children = [Paragraph [TextRun [0x0020]]], console = []\<rparr>) \<and>
   (editorRef st = None \<or> get_htmlContent (content st) = Inr None \<or>
    (\<exists>v. get_htmlContent (content st) = Inr (Some v) \<and>
         (\<not> truthy v \<or>
          children (processNodes fl (parse (ToString v)) \<lparr>children = [], console = []\<rparr>) = []))
      \<longrightarrow> (\<exists>r. handleExportWord parse fl st = Inr r \<and>
                children r = [Paragraph [TextRun (js '' '')]]))"
proof -
  have g: "(\<exists>r. handleExportWord parse fl st = Inr r \<and>
                children r = [Paragraph [TextRun (js '' '')]])"
    if "editorRef st = None \<or> get_htmlContent (content st) = Inr None \<or>
    (\<exists>v. get_htmlContent (content st) = Inr (Some v) \<and>
         (\<not> truthy v \<or>
          children (processNodes fl (parse (ToString v)) \<lparr>children = [], console = []\<rparr>) = []))"
    using that
    by (auto simp: handleExportWord_def finish_export_def Let_def push_def
        split: option.splits sum.splits)
  have t: "(\<exists>r. handleExportWord parse fl st = Inr r \<and>
                children r = [Paragraph [TextRun (js '' '')]])"
    if "content st = draft_object c" and "editorRef st = None \<or> htmlContent c = [] \<or>
     children (processNodes fl (parse (htmlContent c)) \<lparr>children = [], console = []\<rparr>) = []"
  proof -
    have "get_htmlContent (content st) = Inr (Some (JString (htmlContent c)))"
      using that(1) by simp
    then show ?thesis using that(2) by (intro g) auto
  qed
  have e: "handleExportWord parse fl st =
        Inr \<lparr>children = [Paragraph [TextRun [0x0020]]], console = []\<rparr>"
    if "content st = draft_object c" and "htmlContent c = []"
    using that
    by (simp add: handleExportWord_def finish_export_def Let_def push_def js_def
        split: option.splits)
  show ?thesis using g t e by blast
qed

theorem empty_export_single_space_witness:
  "content (initial_app 0 \<lparr>element = OtherNode, selection = None, focused = False\<rparr>)
     = draft_object \<lparr>htmlContent = [], timestamp = 0\<rparr> \<and>
   handleExportWord (\<lambda>s. [TextNode s]) id
       (initial_app 0 \<lparr>element = OtherNode, selection = None, focused = False\<rparr>)
     = Inr \<lparr>children = [Paragraph [TextRun [0x0020]]], console = []\<rparr> \<and>
   children (processNodes id [TextNode (js '' ''), OtherNode] \<lparr>children = [], console = []\<rparr>) = [] \<and>
   (\<exists>r. handleExportWord (\<lambda>s. [TextNode (js '' ''), OtherNode]) id
       ((initial_app 0 \<lparr>element = OtherNode, selection = None, focused = False\<rparr>)
          \<lparr>content := draft_object \<lparr>htmlContent = js ''<!---->'', timestamp = 0\<rparr>\<rparr>) = Inr r \<and>
      children r = [Paragraph [TextRun (js '' '')]]) \<and>
   get_htmlContent (JObject [(js ''content'', JString (js ''x''))]) = Inr None \<and>
   (\<exists>r. handleExportWord (\<lambda>s. [TextNode s]) id
       ((initial_app 0 \<lparr>element = OtherNode, selection = None, focused = False\<rparr>)
          \<lparr>content := JObject [(js ''content'', JString (js ''x''))]\<rparr>) = Inr r \<and>
      children r = [Paragraph [TextRun (js '' '')]])"
proof -
  let ?a = "initial_app 0 \<lparr>element = OtherNode, selection = None, focused = False\<rparr>"
  let ?b = "?a\<lparr>content := draft_object \<lparr>htmlContent = js ''<!---->'', timestamp = 0\<rparr>\<rparr>"
  let ?c = "?a\<lparr>content := JObject [(js ''content'', JString (js ''x''))]\<rparr>"
  have h: "content ?a = draft_object \<lparr>htmlContent = [], timestamp = 0\<rparr>"
    by (simp add: initial_app_def autosave_effect_def setTimeout_def)
  have e: "children (processNodes id [TextNode (js '' ''), OtherNode] \<lparr>children = [], console = []\<rparr>) = []"
    by (simp add: js_def trim_def is_whitespace_def)
  have u: "get_htmlContent (JObject [(js ''content'', JString (js ''x''))]) = Inr None"
    by (simp add: get_htmlContent_def js_def)
  note A = empty_export_single_space[of ?a "\<lparr>htmlContent = [], timestamp = 0\<rparr>" id "\<lambda>s. [TextNode s]"]
  note B = empty_export_single_space[of ?b "\<lparr>htmlContent = js ''<!---->'', timestamp = 0\<rparr>" id
      "\<lambda>s. [TextNode (js '' ''), OtherNode]"]
  note C = empty_export_single_space[of ?c "\<lparr>htmlContent = [], timestamp = 0\<rparr>" id "\<lambda>s. [TextNode s]"]
  have 1: "handleExportWord (\<lambda>s. [TextNode s]) id ?a
     = Inr \<lparr>children = [Paragraph [TextRun [0x0020]]], console = []\<rparr>"
    using A h by simp
  have 2: "\<exists>r. handleExportWord (\<lambda>s. [TextNode (js '' ''), OtherNode]) id ?b = Inr r \<and>
      children r = [Paragraph [TextRun (js '' '')]]"
    using B e by simp
  have 3: "\<exists>r. handleExportWord (\<lambda>s. [TextNode s]) id ?c = Inr r \<and>
      children r = [Paragraph [TextRun (js '' '')]]"
    using C u by simp
  show ?thesis using h 1 e 2 u 3 by blast
qed


lemma process_image_no_data_uri:
  "no_data_uri attrs \<Longrightarrow> process_image fl attrs m st = st"
  by (auto simp: no_data_uri_def process_image_def split: option.splits)

lemma process_image_changes:
  "process_image fl attrs m st \<noteq> st \<Longrightarrow>
   \<exists>src. getAttribute attrs ''src'' = Some src \<and> startsWith src (js ''data:image/'')"
  by (auto simp: process_image_def split: option.splits if_splits)

lemma processNodes_append:
  "processNodes fl (xs @ ys) st = processNodes fl ys (processNodes fl xs st)"
  by (induction xs arbitrary: st) simp_all

lemma processNodes_skip:
  assumes "\<And>s. processNode fl n s = s"
  shows "processNodes fl (xs @ n # ys) st = processNodes fl (xs @ ys) st"
  using assms by (simp add: processNodes_append del: processNode.simps)

lemma querySelector_img_tag:
  "querySelector_img ns = Some n \<Longrightarrow> \<exists>attrs m kids. n = ElementNode ''IMG'' attrs m kids"
  by (induction ns rule: querySelector_img.induct) (auto split: if_splits option.splits)

text \<open>
  C10. An IMG element that \<open>processNode\<close> meets, and the first IMG inside a SPAN of
  class \<open>inline-image\<close>, add an image paragraph only when the \<open>src\<close> attribute starts
  with \<open>data:image/\<close>. When the \<open>src\<close> is absent or no such URI, \<open>processNode\<close> leaves
  the paragraphs and the console as they are, and the walk of the sibling nodes gives
  what it gives without that node.
\<close>

theorem image_without_data_uri_skipped:
  "(no_data_uri attrs \<longrightarrow>
      processNode fl (ElementNode ''IMG'' attrs m kids) st = st \<and>
      processNodes fl (xs @ ElementNode ''IMG'' attrs m kids # ys) st = processNodes fl (xs @ ys) st) \<and>
   (js ''inline-image'' \<in> set (classList sattrs) \<and>
    querySelector_img skids = Some (ElementNode ''IMG'' attrs m kids) \<and> no_data_uri attrs \<longrightarrow>
      processNode fl (ElementNode ''SPAN'' sattrs sm skids) st = st \<and>
      processNodes fl (xs @ ElementNode ''SPAN'' sattrs sm skids # ys) st = processNodes fl (xs @ ys) st) \<and>
   (processNode fl (ElementNode ''IMG'' attrs m kids) st \<noteq> st \<longrightarrow>
      (\<exists>src. getAttribute attrs ''src'' = Some src \<and> startsWith src (js ''data:image/''))) \<and>
   (js ''inline-image'' \<in> set (classList sattrs) \<and>
    processNode fl (ElementNode ''SPAN'' sattrs sm skids) st \<noteq> st \<longrightarrow>
      (\<exists>iattrs im ikids src.
          querySelector_img skids = Some (ElementNode ''IMG'' iattrs im ikids) \<and>
          getAttribute iattrs ''src'' = Some src \<and> startsWith src (js ''data:image/'')))"
proof -
  have img: "processNode fl (ElementNode ''IMG'' attrs m kids) s = s" if "no_data_uri attrs" for s
    using that by (simp add: process_image_no_data_uri)
  have span: "processNode fl (ElementNode ''SPAN'' sattrs sm skids) s = s"
    if "js ''inline-image'' \<in> set (classList sattrs)"
      and "querySelector_img skids = Some (ElementNode ''IMG'' attrs m kids)"
      and "no_data_uri attrs" for s
    using that by (simp add: process_image_no_data_uri)
  have only_img: "\<exists>src. getAttribute attrs ''src'' = Some src \<and> startsWith src (js ''data:image/'')"
    if "processNode fl (ElementNode ''IMG'' attrs m kids) st \<noteq> st"
    using that process_image_changes[of fl attrs m st] by simp
  have only_span: "\<exists>iattrs im ikids src.
          querySelector_img skids = Some (ElementNode ''IMG'' iattrs im ikids) \<and>
          getAttribute iattrs ''src'' = Some src \<and> startsWith src (js ''data:image/'')"
    if c: "js ''inline-image'' \<in> set (classList sattrs)"
      and d: "processNode fl (ElementNode ''SPAN'' sattrs sm skids) st \<noteq> st"
  proof (cases "querySelector_img skids")
    case None
    then show ?thesis using c d by simp
  next
    case (Some n)
    then obtain iattrs im ikids where n: "n = ElementNode ''IMG'' iattrs im ikids"
      using querySelector_img_tag by blast
    then have "process_image fl iattrs im st \<noteq> st" using c d Some by simp
    then show ?thesis using process_image_changes Some n by blast
  qed
  show ?thesis
    using img span only_img only_span
      processNodes_skip[of fl "ElementNode ''IMG'' attrs m kids" xs ys st]
      processNodes_skip[of fl "ElementNode ''SPAN'' sattrs sm skids" xs ys st]
    by blast
qed


theorem image_without_data_uri_skipped_witness:
  "no_data_uri [(''src'', js ''http://e/x.png'')] \<and>
   processNodes id
      [TextNode (js ''a''),
       ElementNode ''IMG'' [(''src'', js ''http://e/x.png'')]
         \<lparr>naturalWidth = 9, width = 9, naturalHeight = 9, height = 9\<rparr> [],
       TextNode (js ''b'')]
      \<lparr>children = [], console = []\<rparr>
     = \<lparr>children = [Paragraph [TextRun (js ''a'')], Paragraph [TextRun (js ''b'')]], console = []\<rparr> \<and>
   js ''inline-image'' \<in> set (classList [(''class'', js ''inline-image'')]) \<and>
   querySelector_img
      [ElementNode ''IMG'' [] \<lparr>naturalWidth = 9, width = 9, naturalHeight = 9, height = 9\<rparr> [],
       ElementNode ''BUTTON'' [] \<lparr>naturalWidth = 0, width = 0, naturalHeight = 0, height = 0\<rparr>
         [TextNode [0x00D7]]]
     = Some (ElementNode ''IMG'' [] \<lparr>naturalWidth = 9, width = 9, naturalHeight = 9, height = 9\<rparr> []) \<and>
   no_data_uri [] \<and>
   processNode id
      (ElementNode ''SPAN'' [(''class'', js ''inline-image'')]
         \<lparr>naturalWidth = 0, width = 0, naturalHeight = 0, height = 0\<rparr>
         [ElementNode ''IMG'' [] \<lparr>naturalWidth = 9, width = 9, naturalHeight = 9, height = 9\<rparr> [],
          ElementNode ''BUTTON'' [] \<lparr>naturalWidth = 0, width = 0, naturalHeight = 0, height = 0\<rparr>
            [TextNode [0x00D7]]])
      \<lparr>children = [], console = []\<rparr>
     = \<lparr>children = [], console = []\<rparr> \<and>
   processNode id
      (ElementNode ''IMG'' [(''src'', js ''data:image/png;base64,aGk='')]
         \<lparr>naturalWidth = 9, width = 9, naturalHeight = 9, height = 9\<rparr> [])
      \<lparr>children = [], console = []\<rparr>
     \<noteq> \<lparr>children = [], console = []\<rparr> \<and>
   startsWith (js ''data:image/png;base64,aGk='') (js ''data:image/'')"
proof -
  let ?m = "\<lparr>naturalWidth = 9, width = 9, naturalHeight = 9, height = 9\<rparr>"
  let ?z = "\<lparr>naturalWidth = 0, width = 0, naturalHeight = 0, height = 0\<rparr>"
  let ?s0 = "\<lparr>children = [], console = []\<rparr>"
  let ?kids = "[ElementNode ''IMG'' [] ?m [], ElementNode ''BUTTON'' [] ?z [TextNode [0x00D7]]]"
  have n1: "no_data_uri [(''src'', js ''http://e/x.png'')]" and n2: "no_data_uri []"
    by (simp_all add: no_data_uri_def startsWith_def js_def)
  have c: "js ''inline-image'' \<in> set (classList [(''class'', js ''inline-image'')])"
    by (simp add: classList_def js_def is_ascii_whitespace_def)
  have q: "querySelector_img ?kids = Some (ElementNode ''IMG'' [] ?m [])" by simp
  have ab: "processNodes id ([TextNode (js ''a'')] @ [TextNode (js ''b'')]) ?s0
      = \<lparr>children = [Paragraph [TextRun (js ''a'')], Paragraph [TextRun (js ''b'')]], console = []\<rparr>"
    by (simp add: js_def trim_def is_whitespace_def LF_def push_def)
  have d: "processNode id (ElementNode ''IMG'' [(''src'', js ''data:image/png;base64,aGk='')] ?m []) ?s0 \<noteq> ?s0"
    by (simp add: process_image_def startsWith_def js_def base64Data_def COMMA_def atob_def
        strip_padding_def is_ascii_whitespace_def b64_value_def push_def export_size_def
        originalWidth_def originalHeight_def js_or_def maxWidth_def maxHeight_def)
  note A = image_without_data_uri_skipped[of "[(''src'', js ''http://e/x.png'')]" id ?m "[]" ?s0
      "[TextNode (js ''a'')]" "[TextNode (js ''b'')]" "[(''class'', js ''inline-image'')]" ?kids ?z]
  note B = image_without_data_uri_skipped[of "[]" id ?m "[]" ?s0
      "[]" "[]" "[(''class'', js ''inline-image'')]" ?kids ?z]
  note C = image_without_data_uri_skipped[of "[(''src'', js ''data:image/png;base64,aGk='')]" id ?m "[]" ?s0
      "[]" "[]" "[]" "[]" ?z]
  have r1: "processNodes id ([TextNode (js ''a'')] @
        ElementNode ''IMG'' [(''src'', js ''http://e/x.png'')] ?m [] # [TextNode (js ''b'')]) ?s0
      = \<lparr>children = [Paragraph [TextRun (js ''a'')], Paragraph [TextRun (js ''b'')]], console = []\<rparr>"
    using A n1 ab by presburger
  have r2: "processNode id (ElementNode ''SPAN'' [(''class'', js ''inline-image'')] ?z ?kids) ?s0 = ?s0"
    using B n2 c q by blast
  have r3: "startsWith (js ''data:image/png;base64,aGk='') (js ''data:image/'')"
    using C d by auto
  show ?thesis using n1 n2 c q r1 r2 r3 d by simp
qed

section \<open>What the export depends on\<close>

lemma report_sizes_cong:
  "(\<forall>a \<in> set (image_attributes n). sizes1 a = sizes2 a) \<Longrightarrow>
     report_sizes sizes1 n = report_sizes sizes2 n"
  by (induction n) auto

lemma browser_parse_cong:
  assumes "\<forall>a \<in> set (concat (map image_attributes (parser markup))). sizes1 a = sizes2 a"
  shows "browser_parse parser sizes1 markup = browser_parse parser sizes2 markup"
  unfolding browser_parse_def
  by (rule map_cong[OF refl], rule report_sizes_cong) (use assms in auto)

text \<open>
  C4 (as amended). The document that \<open>handleExportWord\<close> builds is a function of the
  snapshot (the value of \<open>content.htmlContent\<close>), of whether the ref is set, and of
  the sizes that the browser reports for the image elements of the parsed snapshot:
  two states that agree on the first two export the same document under any two
  browser states that report the same sizes for these elements, whatever the live
  selection, the focus, the live tree, the composition flag, the timestamp and the
  timers are, and whatever the browser reports for other images.
\<close>

theorem export_depends_on_snapshot_and_sizes:
  assumes "get_htmlContent (content s1) = get_htmlContent (content s2)"
    and "editorRef s1 = None \<longleftrightarrow> editorRef s2 = None"
    and "\<forall>v. get_htmlContent (content s1) = Inr (Some v) \<longrightarrow>
           (\<forall>a \<in> set (concat (map image_attributes (parser (ToString v)))).
              sizes1 a = sizes2 a)"
  shows "handleExportWord (browser_parse parser sizes1) fl s1
       = handleExportWord (browser_parse parser sizes2) fl s2"
proof (cases "get_htmlContent (content s1)")
  case (Inl e)
  then show ?thesis using assms(1,2)
    by (auto simp: handleExportWord_def Let_def split: option.splits)
next
  case (Inr h)
  show ?thesis
  proof (cases h)
    case None
    then show ?thesis using Inr assms(1,2)
      by (auto simp: handleExportWord_def Let_def split: option.splits)
  next
    case (Some v)
    have "browser_parse parser sizes1 (ToString v) = browser_parse parser sizes2 (ToString v)"
      using assms(3) Inr Some by (intro browser_parse_cong) simp
    then show ?thesis using Inr Some assms(1,2)
      by (auto simp: handleExportWord_def Let_def split: option.splits)
  qed
qed

theorem export_depends_on_snapshot_and_sizes_witness:
  "get_htmlContent (content
      \<lparr>content = draft_object \<lparr>htmlContent = js ''<img src=data:image/png;base64,aGk>'', timestamp = 5\<rparr>,
       notification = \<lparr>message = [], ntype = Info, visible = False\<rparr>,
       showClearConfirm = False, isComposing = False,
       editorRef = Some \<lparr>element = TextNode (js ''x''), selection = None, focused = False\<rparr>,
       timers = [], next_timer = 0, clock = 5, setItem_calls = [], autosave_timer = None\<rparr>)
     = Inr (Some (JString (js ''<img src=data:image/png;base64,aGk>''))) \<and>
   image_attributes (ElementNode ''IMG'' [(''src'', js ''data:image/png;base64,aGk'')]
      \<lparr>naturalWidth = 0, width = 0, naturalHeight = 0, height = 0\<rparr> [])
     = [[(''src'', js ''data:image/png;base64,aGk'')]] \<and>
   handleExportWord
      (browser_parse
         (\<lambda>s. [ElementNode ''IMG'' [(''src'', js ''data:image/png;base64,aGk'')]
                 \<lparr>naturalWidth = 0, width = 0, naturalHeight = 0, height = 0\<rparr> []])
         (\<lambda>a. if a = [(''src'', js ''data:image/png;base64,aGk'')]
              then \<lparr>naturalWidth = 1200, width = 1200, naturalHeight = 300, height = 300\<rparr>
              else \<lparr>naturalWidth = 0, width = 0, naturalHeight = 0, height = 0\<rparr>))
      double
      \<lparr>content = draft_object \<lparr>htmlContent = js ''<img src=data:image/png;base64,aGk>'', timestamp = 5\<rparr>,
       notification = \<lparr>message = [], ntype = Info, visible = False\<rparr>,
       showClearConfirm = False, isComposing = False,
       editorRef = Some \<lparr>element = TextNode (js ''x''), selection = None, focused = False\<rparr>,
       timers = [], next_timer = 0, clock = 5, setItem_calls = [], autosave_timer = None\<rparr>
   = handleExportWord
      (browser_parse
         (\<lambda>s. [ElementNode ''IMG'' [(''src'', js ''data:image/png;base64,aGk'')]
                 \<lparr>naturalWidth = 0, width = 0, naturalHeight = 0, height = 0\<rparr> []])
         (\<lambda>a. if a = [(''src'', js ''data:image/png;base64,aGk'')]
              then \<lparr>naturalWidth = 1200, width = 1200, naturalHeight = 300, height = 300\<rparr>
              else \<lparr>naturalWidth = 77, width = 77, naturalHeight = 77, height = 77\<rparr>))
      double
      \<lparr>content = JObject [(js ''timestamp'', JNumber 77),
                          (js ''htmlContent'', JString (js ''<img src=data:image/png;base64,aGk>''))],
       notification = \<lparr>message = msg_cleared, ntype = Success, visible = True\<rparr>,
       showClearConfirm = True, isComposing = True,
       editorRef = Some \<lparr>element = ElementNode ''DIV'' [] \<lparr>naturalWidth = 0, width = 0, naturalHeight = 0, height = 0\<rparr> [TextNode (js ''other'')],
                         selection = Some \<lparr>startContainer = Within [0], startOffset = 1,
                                            endContainer = Within [0], endOffset = 3\<rparr>,
                         focused = True\<rparr>,
       timers = [\<lparr>timer_id = 3, due = 90, task = UpdateContent\<rparr>], next_timer = 4, clock = 80,
       setItem_calls = [], autosave_timer = Some 2\<rparr>"
proof -
  let ?snap = "js ''<img src=data:image/png;base64,aGk>''"
  let ?attrs = "[(''src'', js ''data:image/png;base64,aGk'')]"
  let ?z = "\<lparr>naturalWidth = 0, width = 0, naturalHeight = 0, height = 0\<rparr>"
  let ?s1 = "\<lparr>content = draft_object \<lparr>htmlContent = ?snap, timestamp = 5\<rparr>,
       notification = \<lparr>message = [], ntype = Info, visible = False\<rparr>,
       showClearConfirm = False, isComposing = False,
       editorRef = Some \<lparr>element = TextNode (js ''x''), selection = None, focused = False\<rparr>,
       timers = [], next_timer = 0, clock = 5, setItem_calls = [], autosave_timer = None\<rparr>"
  let ?s2 = "\<lparr>content = JObject [(js ''timestamp'', JNumber 77), (js ''htmlContent'', JString ?snap)],
       notification = \<lparr>message = msg_cleared, ntype = Success, visible = True\<rparr>,
       showClearConfirm = True, isComposing = True,
       editorRef = Some \<lparr>element = ElementNode ''DIV'' [] ?z [TextNode (js ''other'')],
                         selection = Some \<lparr>startContainer = Within [0], startOffset = 1,
                                            endContainer = Within [0], endOffset = 3\<rparr>,
                         focused = True\<rparr>,
       timers = [\<lparr>timer_id = 3, due = 90, task = UpdateContent\<rparr>], next_timer = 4, clock = 80,
       setItem_calls = [], autosave_timer = Some 2\<rparr>"
  let ?parser = "\<lambda>s :: jsstring. [ElementNode ''IMG'' ?attrs ?z []]"
  let ?sz1 = "\<lambda>a. if a = ?attrs
              then \<lparr>naturalWidth = 1200, width = 1200, naturalHeight = 300, height = 300\<rparr> else ?z"
  let ?sz2 = "\<lambda>a. if a = ?attrs
              then \<lparr>naturalWidth = 1200, width = 1200, naturalHeight = 300, height = 300\<rparr>
              else \<lparr>naturalWidth = 77, width = 77, naturalHeight = 77, height = 77\<rparr>"
  have g1: "get_htmlContent (content ?s1) = Inr (Some (JString ?snap))" by simp
  have g2: "get_htmlContent (content ?s2) = Inr (Some (JString ?snap))"
    by (simp add: get_htmlContent_def js_def)
  have i: "image_attributes (ElementNode ''IMG'' ?attrs ?z []) = [?attrs]" by simp
  have a1: "get_htmlContent (content ?s1) = get_htmlContent (content ?s2)" using g1 g2 by simp
  have a2: "editorRef ?s1 = None \<longleftrightarrow> editorRef ?s2 = None" by simp
  have a3: "\<forall>v. get_htmlContent (content ?s1) = Inr (Some v) \<longrightarrow>
           (\<forall>a \<in> set (concat (map image_attributes (?parser (ToString v)))). ?sz1 a = ?sz2 a)"
    by simp
  show ?thesis
    using export_depends_on_snapshot_and_sizes[of ?s1 ?s2 ?parser ?sz1 ?sz2 double, OF a1 a2 a3] g1 i
    by simp
qed

text \<open>
  C4 as the specification words it (the export a function of the snapshot alone)
  fails: with the same snapshot and the ref set, the image of the snapshot exports as
  600 by 150 when the browser reports its natural size 1200 by 300, and as 400 by 300,
  the default, when the browser has not got the image yet and reports zeros. With the
  ref unset the same snapshot exports as the blank document.
\<close>

theorem export_depends_on_snapshot_and_sizes_counterexample:
  "handleExportWord
      (browser_parse
         (\<lambda>s. [ElementNode ''IMG'' [(''src'', js ''data:image/png;base64,aGk'')]
                 \<lparr>naturalWidth = 0, width = 0, naturalHeight = 0, height = 0\<rparr> []])
         (\<lambda>a. \<lparr>naturalWidth = 1200, width = 1200, naturalHeight = 300, height = 300\<rparr>))
      double
      ((initial_app 0 \<lparr>element = OtherNode, selection = None, focused = False\<rparr>)
         \<lparr>content := draft_object \<lparr>htmlContent = js ''<img src=data:image/png;base64,aGk>'', timestamp = 0\<rparr>\<rparr>)
     = Inr \<lparr>children = [Paragraph [ImageRun [104, 105] 600 150]], console = []\<rparr> \<and>
   handleExportWord
      (browser_parse
         (\<lambda>s. [ElementNode ''IMG'' [(''src'', js ''data:image/png;base64,aGk'')]
                 \<lparr>naturalWidth = 0, width = 0, naturalHeight = 0, height = 0\<rparr> []])
         (\<lambda>a. \<lparr>naturalWidth = 0, width = 0, naturalHeight = 0, height = 0\<rparr>))
      double
      ((initial_app 0 \<lparr>element = OtherNode, selection = None, focused = False\<rparr>)
         \<lparr>content := draft_object \<lparr>htmlContent = js ''<img src=data:image/png;base64,aGk>'', timestamp = 0\<rparr>\<rparr>)
     = Inr \<lparr>children = [Paragraph [ImageRun [104, 105] 400 300]], console = []\<rparr> \<and>
   handleExportWord
      (browser_parse
         (\<lambda>s. [ElementNode ''IMG'' [(''src'', js ''data:image/png;base64,aGk'')]
                 \<lparr>naturalWidth = 0, width = 0, naturalHeight = 0, height = 0\<rparr> []])
         (\<lambda>a. \<lparr>naturalWidth = 1200, width = 1200, naturalHeight = 300, height = 300\<rparr>))
      double
      ((initial_app 0 \<lparr>element = OtherNode, selection = None, focused = False\<rparr>)
         \<lparr>content := draft_object \<lparr>htmlContent = js ''<img src=data:image/png;base64,aGk>'', timestamp = 0\<rparr>,
          editorRef := None\<rparr>)
     = Inr \<lparr>children = [Paragraph [TextRun (js '' '')]], console = []\<rparr>"
proof -
  let ?attrs = "[(''src'', js ''data:image/png;base64,aGk'')]"
  have src: "getAttribute ?attrs ''src'' = Some (js ''data:image/png;base64,aGk'')"
    "startsWith (js ''data:image/png;base64,aGk'') (js ''data:image/'')"
    "js ''data:image/png;base64,aGk'' \<noteq> []"
    "atob (base64Data (js ''data:image/png;base64,aGk'')) = Some [104, 105]"
    by (simp_all add: startsWith_def js_def base64Data_def COMMA_def atob_def
        strip_padding_def is_ascii_whitespace_def b64_value_def)
  have ne: "js ''<img src=data:image/png;base64,aGk>'' \<noteq> []" by (simp add: js_def)
  have e1: "export_size double 1200 300 = (600, 150)"
    by (rule export_size_examples(1)[OF double_ok])
  have e2: "export_size double 400 300 = (400, 300)" by (simp add: export_size_within)
  have m1: "originalWidth \<lparr>naturalWidth = 1200, width = 1200, naturalHeight = 300, height = 300\<rparr> = 1200"
    "originalHeight \<lparr>naturalWidth = 1200, width = 1200, naturalHeight = 300, height = 300\<rparr> = 300"
    "originalWidth \<lparr>naturalWidth = 0, width = 0, naturalHeight = 0, height = 0\<rparr> = 400"
    "originalHeight \<lparr>naturalWidth = 0, width = 0, naturalHeight = 0, height = 0\<rparr> = 300"
    by (simp_all add: originalWidth_def originalHeight_def js_or_def)
  have p1: "process_image double ?attrs
      \<lparr>naturalWidth = 1200, width = 1200, naturalHeight = 300, height = 300\<rparr> \<lparr>children = [], console = []\<rparr>
      = \<lparr>children = [Paragraph [ImageRun [104, 105] 600 150]], console = []\<rparr>"
    using src by (simp add: process_image_def m1 e1 push_def)
  have p2: "process_image double ?attrs
      \<lparr>naturalWidth = 0, width = 0, naturalHeight = 0, height = 0\<rparr> \<lparr>children = [], console = []\<rparr>
      = \<lparr>children = [Paragraph [ImageRun [104, 105] 400 300]], console = []\<rparr>"
    using src by (simp add: process_image_def m1 e2 push_def)
  show ?thesis
    using ne
    by (simp add: handleExportWord_def browser_parse_def finish_export_def push_def p1 p2
        initial_app_def autosave_effect_def setTimeout_def Let_def)
qed


section \<open>Composition, autosave and the stored value\<close>

lemma content_setContent [simp]: "content (setContent c st) = c"
  by (simp add: setContent_def autosave_effect_def autosave_cleanup_def setTimeout_def
      clearTimeout_def split: option.splits)

lemma handleContentChange_composing: "handleContentChange innerHTML True st = st"
  by (simp add: handleContentChange_def split: option.splits)

lemma onInput_composing: "isComposing st \<Longrightarrow> onInput innerHTML st = st"
  by (simp add: onInput_def handleContentChange_composing)

lemma onInput_composing_funpow:
  "isComposing st \<Longrightarrow> (onInput innerHTML ^^ n) st = st"
  by (induction n) (simp_all add: onInput_composing)

subsection \<open>The autosave invariants\<close>

lemma is_autosave_simps [simp]:
  "is_autosave \<lparr>timer_id = i, due = d, task = Autosave c\<rparr>"
  "\<not> is_autosave \<lparr>timer_id = i, due = d, task = UpdateContent\<rparr>"
  "\<not> is_autosave \<lparr>timer_id = i, due = d, task = RestoreCursor p\<rparr>"
  "\<not> is_autosave \<lparr>timer_id = i, due = d, task = HideNotification\<rparr>"
  "\<not> is_autosave \<lparr>timer_id = i, due = d, task = FocusEditor\<rparr>"
  by (simp_all add: is_autosave_def)

lemma cleanup_no_autosave:
  assumes "autosave_tracked st"
  shows "filter is_autosave (timers (autosave_cleanup st)) = []"
proof (cases "autosave_timer st")
  case None
  then have "\<forall>tm \<in> set (timers st). \<not> is_autosave tm"
    using assms by (auto simp: autosave_tracked_def)
  then show ?thesis using None by (simp add: autosave_cleanup_def filter_empty_conv)
next
  case (Some i)
  then have "\<forall>tm \<in> set (timers st). is_autosave tm \<longrightarrow> timer_id tm = i"
    using assms by (auto simp: autosave_tracked_def)
  then show ?thesis using Some
    by (auto simp: autosave_cleanup_def clearTimeout_def filter_empty_conv)
qed

lemma cleanup_fields [simp]:
  "content (autosave_cleanup st) = content st"
  "clock (autosave_cleanup st) = clock st"
  "next_timer (autosave_cleanup st) = next_timer st"
  "setItem_calls (autosave_cleanup st) = setItem_calls st"
  "editorRef (autosave_cleanup st) = editorRef st"
  by (simp_all add: autosave_cleanup_def clearTimeout_def split: option.splits)

lemma cleanup_timers_subset:
  "set (timers (autosave_cleanup st)) \<subseteq> set (timers st)"
  by (auto simp: autosave_cleanup_def clearTimeout_def split: option.splits)

lemma setContent_timers:
  "timers (setContent c st) =
     timers (autosave_cleanup st) @ [\<lparr>timer_id = next_timer st, due = clock st + 1000, task = Autosave c\<rparr>]"
  by (simp add: setContent_def autosave_effect_def setTimeout_def autosave_cleanup_def
      clearTimeout_def split: option.splits)

lemma setContent_fields [simp]:
  "autosave_timer (setContent c st) = Some (next_timer st)"
  "clock (setContent c st) = clock st"
  "setItem_calls (setContent c st) = setItem_calls st"
  "editorRef (setContent c st) = editorRef st"
  "isComposing (setContent c st) = isComposing st"
  by (simp_all add: setContent_def autosave_effect_def setTimeout_def autosave_cleanup_def
      clearTimeout_def split: option.splits)

lemma setContent_autosave_timers:
  assumes "autosave_tracked st"
  shows "filter is_autosave (timers (setContent c st)) =
     [\<lparr>timer_id = next_timer st, due = clock st + 1000, task = Autosave c\<rparr>]"
  using cleanup_no_autosave[OF assms] by (simp add: setContent_timers)

lemma setContent_invariants:
  assumes "autosave_tracked st"
  shows "autosave_tracked (setContent c st)" and "autosave_current (setContent c st)"
proof -
  have none: "\<forall>tm \<in> set (timers (autosave_cleanup st)). \<not> is_autosave tm"
    using cleanup_no_autosave[OF assms] by (simp add: filter_empty_conv)
  show "autosave_tracked (setContent c st)"
    using none by (auto simp: autosave_tracked_def setContent_timers)
  show "autosave_current (setContent c st)"
    using none by (auto simp: autosave_current_def setContent_timers)
qed

lemma setContent_no_update:
  "no_pending_update st \<Longrightarrow> no_pending_update (setContent c st)"
  using cleanup_timers_subset[of st]
  by (auto simp: no_pending_update_def setContent_timers)


subsection \<open>Time passing\<close>

lemma earliest_None: "earliest xs = None \<longleftrightarrow> xs = []"
  by (induction xs) (auto split: option.splits)

lemma earliest_filter:
  "earliest (filter P xs) = Some x \<Longrightarrow> P x \<and> x \<in> set xs"
  using earliest_mem[of "filter P xs" x] by simp

text \<open>A callback other than the autosave write and the deferred update touches
  neither the timers, nor the storage, nor the snapshot.\<close>

lemma fire_quiet:
  assumes "\<not> is_autosave tm" and "task tm \<noteq> UpdateContent"
  shows "timers (fire innerHTML tm st) = remove1 tm (timers st)"
    and "setItem_calls (fire innerHTML tm st) = setItem_calls st"
    and "content (fire innerHTML tm st) = content st"
    and "autosave_timer (fire innerHTML tm st) = autosave_timer st"
    and "clock (fire innerHTML tm st) = max (clock st) (due tm)"
  using assms
  by (cases "task tm"; simp add: fire_def run_task_def is_autosave_def Let_def split: sum.splits)+

lemma fire_autosave:
  assumes "task tm = Autosave c"
  shows "timers (fire innerHTML tm st) = remove1 tm (timers st)"
    and "setItem_calls (fire innerHTML tm st) = setItem_calls st @ [(STORAGE_KEY, JSON_stringify c)]"
    and "content (fire innerHTML tm st) = content st"
    and "autosave_timer (fire innerHTML tm st) = autosave_timer st"
  using assms by (simp_all add: fire_def run_task_def)

lemma filter_remove1_other:
  "\<not> is_autosave x \<Longrightarrow> filter is_autosave (remove1 x xs) = filter is_autosave xs"
  by (induction xs) auto

lemma no_pending_update_remove1:
  "no_pending_update st \<Longrightarrow> timers st' = remove1 tm (timers st) \<Longrightarrow> no_pending_update st'"
  by (auto simp: no_pending_update_def dest: notin_set_remove1)

text \<open>While no autosave timer is due and no deferred update is pending, time passes
  without a write and without a change to the snapshot or to the autosave timers.\<close>

lemma advance_quiet:
  "no_pending_update st \<Longrightarrow> \<forall>tm \<in> set (timers st). is_autosave tm \<longrightarrow> t < due tm \<Longrightarrow>
   setItem_calls (advance_to innerHTML t st) = setItem_calls st \<and>
   filter is_autosave (timers (advance_to innerHTML t st)) = filter is_autosave (timers st) \<and>
   autosave_timer (advance_to innerHTML t st) = autosave_timer st \<and>
   content (advance_to innerHTML t st) = content st \<and>
   no_pending_update (advance_to innerHTML t st) \<and>
   clock (advance_to innerHTML t st) = max (clock st) t"
proof (induction innerHTML t st rule: advance_to.induct)
  case (1 innerHTML t st)
  show ?case
  proof (cases "earliest (filter (\<lambda>tm. due tm \<le> t) (timers st))")
    case None
    then show ?thesis using "1.prems"(1) by (simp add: no_pending_update_def)
  next
    case (Some tm)
    then have due: "due tm \<le> t" and mem: "tm \<in> set (timers st)"
      using earliest_filter[of "\<lambda>tm. due tm \<le> t"] by blast+
    have na: "\<not> is_autosave tm" using "1.prems"(2) due mem by auto
    have nu: "task tm \<noteq> UpdateContent" using "1.prems"(1) mem by (auto simp: no_pending_update_def)
    note f = fire_quiet[OF na nu, of innerHTML st]
    have p1: "no_pending_update (fire innerHTML tm st)"
      using no_pending_update_remove1[OF "1.prems"(1) f(1)] .
    have p2: "\<forall>x \<in> set (timers (fire innerHTML tm st)). is_autosave x \<longrightarrow> t < due x"
      using "1.prems"(2) by (auto simp: f(1) dest: notin_set_remove1)
    note IH = "1.IH"[OF Some p1 p2]
    have adv: "advance_to innerHTML t st = advance_to innerHTML t (fire innerHTML tm st)"
      using Some by simp
    have clk: "max (max (clock st) (due tm)) t = max (clock st) t" using due by simp
    show ?thesis
      unfolding adv using IH by (simp add: f filter_remove1_other[OF na] clk)
  qed
qed

text \<open>When the one pending autosave timer is due, time passing performs its write,
  once.\<close>

lemma advance_fires:
  "no_pending_update st \<Longrightarrow> filter is_autosave (timers st) = [tm0] \<Longrightarrow> task tm0 = Autosave c \<Longrightarrow>
   due tm0 \<le> t \<Longrightarrow>
   setItem_calls (advance_to innerHTML t st) = setItem_calls st @ [(STORAGE_KEY, JSON_stringify c)]"
proof (induction innerHTML t st rule: advance_to.induct)
  case (1 innerHTML t st)
  have "tm0 \<in> set (filter is_autosave (timers st))" using "1.prems"(2) by simp
  then have tm0: "tm0 \<in> set (timers st)" and a0: "is_autosave tm0" by simp_all
  have "filter (\<lambda>tm. due tm \<le> t) (timers st) \<noteq> []"
    using tm0 "1.prems"(4) by (auto simp: filter_empty_conv)
  then obtain tm where Some: "earliest (filter (\<lambda>tm. due tm \<le> t) (timers st)) = Some tm"
    using earliest_None by (metis not_Some_eq)
  then have due: "due tm \<le> t" and mem: "tm \<in> set (timers st)"
    using earliest_filter[of "\<lambda>tm. due tm \<le> t"] by blast+
  have adv: "advance_to innerHTML t st = advance_to innerHTML t (fire innerHTML tm st)"
    using Some by simp
  have nu: "task tm \<noteq> UpdateContent" using "1.prems"(1) mem by (auto simp: no_pending_update_def)
  show ?case
  proof (cases "is_autosave tm")
    case True
    then have "tm \<in> set (filter is_autosave (timers st))" using mem by simp
    then have eq: "tm = tm0" using "1.prems"(2) by simp
    note f = fire_autosave[OF "1.prems"(3), of innerHTML st, folded eq]
    have "filter is_autosave (remove1 tm0 (timers st)) = remove1 tm0 (filter is_autosave (timers st))"
      by (simp add: filter_remove1)
    then have none: "filter is_autosave (timers (fire innerHTML tm st)) = []"
      using "1.prems"(2) eq f(1) by simp
    have p1: "no_pending_update (fire innerHTML tm st)"
      using no_pending_update_remove1[OF "1.prems"(1) f(1)] .
    have p2: "\<forall>x \<in> set (timers (fire innerHTML tm st)). is_autosave x \<longrightarrow> t < due x"
      using none by (simp add: filter_empty_conv)
    show ?thesis unfolding adv using advance_quiet[OF p1 p2, of innerHTML] f(2) by simp
  next
    case False
    note f = fire_quiet[OF False nu, of innerHTML st]
    have p1: "no_pending_update (fire innerHTML tm st)"
      using no_pending_update_remove1[OF "1.prems"(1) f(1)] .
    have p2: "filter is_autosave (timers (fire innerHTML tm st)) = [tm0]"
      using "1.prems"(2) by (simp add: f(1) filter_remove1_other[OF False])
    show ?thesis unfolding adv
      using "1.IH"[OF Some p1 p2 "1.prems"(3,4)] by (simp add: f(2))
  qed
qed


subsection \<open>A burst of changes\<close>

lemma tracked_of_single:
  "filter is_autosave (timers st) = [tm] \<Longrightarrow> autosave_timer st = Some (timer_id tm) \<Longrightarrow>
   autosave_tracked st"
proof -
  assume f: "filter is_autosave (timers st) = [tm]" and h: "autosave_timer st = Some (timer_id tm)"
  have "x = tm" if "x \<in> set (timers st)" and "is_autosave x" for x
  proof -
    have "x \<in> set (filter is_autosave (timers st))" using that by simp
    then show ?thesis using f by simp
  qed
  then show ?thesis using h by (auto simp: autosave_tracked_def)
qed

lemma run_changes_burst:
  "\<forall>(g, c) \<in> set cs. g < 1000 \<Longrightarrow> no_pending_update st \<Longrightarrow>
   filter is_autosave (timers st) = [\<lparr>timer_id = i, due = clock st + 1000, task = Autosave c0\<rparr>] \<Longrightarrow>
   autosave_timer st = Some i \<Longrightarrow>
   \<exists>j. no_pending_update (run_changes innerHTML cs st) \<and>
       filter is_autosave (timers (run_changes innerHTML cs st)) =
         [\<lparr>timer_id = j, due = clock (run_changes innerHTML cs st) + 1000,
           task = Autosave (last (c0 # map snd cs))\<rparr>] \<and>
       autosave_timer (run_changes innerHTML cs st) = Some j \<and>
       setItem_calls (run_changes innerHTML cs st) = setItem_calls st"
proof (induction cs arbitrary: st i c0)
  case Nil
  then show ?case by simp
next
  case (Cons gc cs)
  obtain g c where gc: "gc = (g, c)" by (cases gc)
  have g: "g < 1000" and rest: "\<forall>(g, c) \<in> set cs. g < 1000" using Cons.prems(1) gc by auto
  let ?tm = "\<lparr>timer_id = i, due = clock st + 1000, task = Autosave c0\<rparr>"
  let ?st1 = "advance_to innerHTML (clock st + g) st"
  let ?st2 = "setContent c ?st1"
  have notdue: "\<forall>tm \<in> set (timers st). is_autosave tm \<longrightarrow> clock st + g < due tm"
  proof (intro ballI impI)
    fix tm assume "tm \<in> set (timers st)" and "is_autosave tm"
    then have "tm \<in> set (filter is_autosave (timers st))" by simp
    then have "tm = ?tm" using Cons.prems(3) by simp
    then show "clock st + g < due tm" using g by simp
  qed
  note q = advance_quiet[OF Cons.prems(2) notdue, of innerHTML]
  have f1: "filter is_autosave (timers ?st1) = [?tm]" using q Cons.prems(3) by simp
  have h1: "autosave_timer ?st1 = Some (timer_id ?tm)" using q Cons.prems(4) by simp
  have tr1: "autosave_tracked ?st1" using tracked_of_single[OF f1 h1] .
  have nu1: "no_pending_update ?st1" using q by simp
  have k1: "clock ?st1 = clock st + g" using q by simp
  have w1: "setItem_calls ?st1 = setItem_calls st" using q by simp
  have f2: "filter is_autosave (timers ?st2) =
      [\<lparr>timer_id = next_timer ?st1, due = clock ?st2 + 1000, task = Autosave c\<rparr>]"
    using setContent_autosave_timers[OF tr1, of c] by simp
  have nu2: "no_pending_update ?st2" using setContent_no_update[OF nu1] .
  have h2: "autosave_timer ?st2 = Some (next_timer ?st1)" by simp
  from Cons.IH[OF rest nu2 f2 h2]
  obtain j where j: "no_pending_update (run_changes innerHTML cs ?st2)"
    "filter is_autosave (timers (run_changes innerHTML cs ?st2)) =
       [\<lparr>timer_id = j, due = clock (run_changes innerHTML cs ?st2) + 1000,
         task = Autosave (last (c # map snd cs))\<rparr>]"
    "autosave_timer (run_changes innerHTML cs ?st2) = Some j"
    "setItem_calls (run_changes innerHTML cs ?st2) = setItem_calls ?st2"
    by blast
  have r: "run_changes innerHTML (gc # cs) st = run_changes innerHTML cs ?st2" by (simp add: gc)
  have l: "last (c0 # map snd (gc # cs)) = last (c # map snd cs)" by (simp add: gc)
  show ?case unfolding r l using j w1 by auto
qed

text \<open>
  C8. From a state in which the effect's handle covers the pending autosave timers
  and no deferred update is pending, let the snapshot change to \<open>c1\<close> and then, each
  less than 1000 ms after the change before it, to the contents of \<open>cs\<close>. No write
  happens during the burst. Once \<open>d\<close> more milliseconds have passed without a change,
  the writes since the start of the burst are none if \<open>d < 1000\<close> and exactly one
  otherwise, of the snapshot of the last change. A snapshot change leaves exactly one
  autosave timer pending, its own: the unfired one before it is cancelled.
\<close>

theorem autosave_debounce:
  assumes "autosave_tracked st" and "no_pending_update st" and "\<forall>(g, c) \<in> set cs. g < 1000"
  shows
    "setItem_calls (run_changes innerHTML cs (setContent c1 st)) = setItem_calls st \<and>
     setItem_calls
        (advance_to innerHTML (clock (run_changes innerHTML cs (setContent c1 st)) + d)
           (run_changes innerHTML cs (setContent c1 st)))
       = setItem_calls st @
           (if 1000 \<le> d then [(STORAGE_KEY, JSON_stringify (last (c1 # map snd cs)))] else []) \<and>
     filter is_autosave (timers (setContent c1 st)) =
       [\<lparr>timer_id = next_timer st, due = clock st + 1000, task = Autosave c1\<rparr>]"
proof -
  let ?s1 = "setContent c1 st"
  let ?s = "run_changes innerHTML cs ?s1"
  have f1: "filter is_autosave (timers ?s1) =
      [\<lparr>timer_id = next_timer st, due = clock ?s1 + 1000, task = Autosave c1\<rparr>]"
    using setContent_autosave_timers[OF assms(1), of c1] by simp
  have nu1: "no_pending_update ?s1" using setContent_no_update[OF assms(2)] .
  have h1: "autosave_timer ?s1 = Some (next_timer st)" by simp
  from run_changes_burst[OF assms(3) nu1 f1 h1, of innerHTML]
  obtain j where j: "no_pending_update ?s"
    "filter is_autosave (timers ?s) =
       [\<lparr>timer_id = j, due = clock ?s + 1000, task = Autosave (last (c1 # map snd cs))\<rparr>]"
    "setItem_calls ?s = setItem_calls ?s1"
    by blast
  have w: "setItem_calls ?s = setItem_calls st" using j(3) by simp
  let ?tm = "\<lparr>timer_id = j, due = clock ?s + 1000, task = Autosave (last (c1 # map snd cs))\<rparr>"
  have fin: "setItem_calls (advance_to innerHTML (clock ?s + d) ?s)
       = setItem_calls st @
           (if 1000 \<le> d then [(STORAGE_KEY, JSON_stringify (last (c1 # map snd cs)))] else [])"
  proof (cases "1000 \<le> d")
    case True
    have "due ?tm \<le> clock ?s + d" using True by simp
    from advance_fires[OF j(1) j(2) _ this, of "last (c1 # map snd cs)" innerHTML]
    show ?thesis using True w by simp
  next
    case False
    have "\<forall>tm \<in> set (timers ?s). is_autosave tm \<longrightarrow> clock ?s + d < due tm"
    proof (intro ballI impI)
      fix tm assume "tm \<in> set (timers ?s)" and "is_autosave tm"
      then have "tm \<in> set (filter is_autosave (timers ?s))" by simp
      then have "tm = ?tm" using j(2) by simp
      then show "clock ?s + d < due tm" using False by simp
    qed
    from advance_quiet[OF j(1) this, of innerHTML] show ?thesis using False w by simp
  qed
  show ?thesis using w fin setContent_autosave_timers[OF assms(1), of c1] by simp
qed


lemma initial_app_invariants:
  "autosave_tracked (initial_app now ed)" "autosave_current (initial_app now ed)"
  "no_pending_update (initial_app now ed)"
  by (simp_all add: initial_app_def autosave_effect_def setTimeout_def autosave_tracked_def
      autosave_current_def no_pending_update_def)

theorem autosave_debounce_witness:
  "autosave_tracked (initial_app 0 \<lparr>element = OtherNode, selection = None, focused = False\<rparr>) \<and>
   no_pending_update (initial_app 0 \<lparr>element = OtherNode, selection = None, focused = False\<rparr>) \<and>
   (300::nat) < 1000 \<and> (999::nat) < 1000 \<and>
   setItem_calls
     (advance_to textContent
        (clock (run_changes textContent
                  [(300, draft_object \<lparr>htmlContent = js ''ab'', timestamp = 300\<rparr>),
                   (999, draft_object \<lparr>htmlContent = js ''abc'', timestamp = 1299\<rparr>)]
                  (setContent (draft_object \<lparr>htmlContent = js ''a'', timestamp = 0\<rparr>)
                     (initial_app 0 \<lparr>element = OtherNode, selection = None, focused = False\<rparr>)))
           + 1000)
        (run_changes textContent
           [(300, draft_object \<lparr>htmlContent = js ''ab'', timestamp = 300\<rparr>),
            (999, draft_object \<lparr>htmlContent = js ''abc'', timestamp = 1299\<rparr>)]
           (setContent (draft_object \<lparr>htmlContent = js ''a'', timestamp = 0\<rparr>)
              (initial_app 0 \<lparr>element = OtherNode, selection = None, focused = False\<rparr>))))
     = [(STORAGE_KEY, JSON_stringify (draft_object \<lparr>htmlContent = js ''abc'', timestamp = 1299\<rparr>))]"
proof -
  let ?st = "initial_app 0 \<lparr>element = OtherNode, selection = None, focused = False\<rparr>"
  let ?cs = "[(300::nat, draft_object \<lparr>htmlContent = js ''ab'', timestamp = 300\<rparr>),
              (999, draft_object \<lparr>htmlContent = js ''abc'', timestamp = 1299\<rparr>)]"
  have g: "\<forall>(g, c) \<in> set ?cs. g < 1000" by simp
  have e: "setItem_calls ?st = []"
    by (simp add: initial_app_def autosave_effect_def setTimeout_def)
  note T = autosave_debounce[where st = ?st and cs = ?cs and innerHTML = textContent
      and ?c1.0 = "draft_object \<lparr>htmlContent = js ''a'', timestamp = 0\<rparr>" and d = 1000,
      OF initial_app_invariants(1) initial_app_invariants(3) g]
  show ?thesis using T initial_app_invariants(1,3)[of 0 "\<lparr>element = OtherNode, selection = None, focused = False\<rparr>"] e
    by simp
qed

subsection \<open>The stored value\<close>

lemma invariants_timers_eq:
  assumes "autosave_tracked st" "autosave_current st"
    and "set (timers st') \<subseteq> set (timers st)" and "autosave_timer st' = autosave_timer st"
    and "content st' = content st"
  shows "autosave_tracked st'" "autosave_current st'"
  using assms by (auto simp: autosave_tracked_def autosave_current_def)

lemma invariants_setTimeout:
  assumes "autosave_tracked st" "autosave_current st" and "\<And>c. t \<noteq> Autosave c"
  shows "autosave_tracked (snd (setTimeout t d st))" "autosave_current (snd (setTimeout t d st))"
  using assms
  by (auto simp: autosave_tracked_def autosave_current_def setTimeout_def is_autosave_def
      split: task.splits)

lemma invariants_handleContentChange:
  assumes "autosave_tracked st" "autosave_current st"
  shows "autosave_tracked (handleContentChange innerHTML b st)"
    and "autosave_current (handleContentChange innerHTML b st)"
proof -
  have "autosave_tracked (handleContentChange innerHTML b st) \<and>
        autosave_current (handleContentChange innerHTML b st)"
  proof (cases "editorRef st")
    case None
    then show ?thesis using assms by (simp add: handleContentChange_def)
  next
    case (Some ed)
    show ?thesis
    proof (cases b)
      case True
      then show ?thesis using assms by (simp add: handleContentChange_composing)
    next
      case False
      let ?c = "spread_update (content st) (innerHTML (element ed)) (clock st)"
      have "handleContentChange innerHTML b st =
          snd (setTimeout (RestoreCursor (saveCursorPosition (editorRef st))) 0 (setContent ?c st))"
        using Some False by (simp add: handleContentChange_def Let_def)
      then show ?thesis
        using invariants_setTimeout[OF setContent_invariants[OF assms(1), of ?c]] by simp
    qed
  qed
  then show "autosave_tracked (handleContentChange innerHTML b st)"
    and "autosave_current (handleContentChange innerHTML b st)" by simp_all
qed

lemma invariants_handleClear:
  assumes "autosave_tracked st"
  shows "autosave_tracked (handleClear st)" and "autosave_current (handleClear st)"
proof -
  let ?c = "draft_object \<lparr>htmlContent = [], timestamp = clock st\<rparr>"
  let ?s1 = "setContent ?c st"
  note i1 = setContent_invariants[OF assms, of ?c]
  let ?s3 = "?s1\<lparr>editorRef := map_option (set_innerHTML []) (editorRef ?s1),
                showClearConfirm := False,
                notification := \<lparr>message = msg_cleared, ntype = Success, visible = True\<rparr>\<rparr>"
  have i3: "autosave_tracked ?s3" "autosave_current ?s3"
    by (rule invariants_timers_eq[OF i1]; simp)+
  have "handleClear st = snd (setTimeout HideNotification 3000 ?s3)"
    by (simp add: handleClear_def showNotification_def Let_def)
  then show "autosave_tracked (handleClear st)" and "autosave_current (handleClear st)"
    using invariants_setTimeout[OF i3, of HideNotification 3000] by simp_all
qed

lemma invariants_fire:
  assumes "autosave_tracked st" "autosave_current st"
  shows "autosave_tracked (fire innerHTML tm st)" and "autosave_current (fire innerHTML tm st)"
proof -
  let ?st1 = "st\<lparr>timers := remove1 tm (timers st), clock := max (clock st) (due tm)\<rparr>"
  have sub: "set (timers ?st1) \<subseteq> set (timers st)" by (simp add: set_remove1_subset)
  have i1: "autosave_tracked ?st1" "autosave_current ?st1"
    by (rule invariants_timers_eq[OF assms sub]; simp)+
  have "autosave_tracked (fire innerHTML tm st) \<and> autosave_current (fire innerHTML tm st)"
  proof (cases "task tm")
    case (Autosave c)
    have "fire innerHTML tm st = ?st1\<lparr>setItem_calls := setItem_calls ?st1 @ [(STORAGE_KEY, JSON_stringify c)]\<rparr>"
      using Autosave by (simp add: fire_def run_task_def)
    then show ?thesis using invariants_timers_eq[OF i1, of "fire innerHTML tm st"] by simp
  next
    case (RestoreCursor p)
    then have "\<not> is_autosave tm" and "task tm \<noteq> UpdateContent"
      by (simp_all add: is_autosave_def)
    note f = fire_quiet[OF this, of innerHTML st]
    show ?thesis using invariants_timers_eq[OF i1, of "fire innerHTML tm st"] f by simp
  next
    case UpdateContent
    show ?thesis
    proof (cases "editorRef st")
      case None
      then have "fire innerHTML tm st = ?st1" using UpdateContent by (simp add: fire_def run_task_def)
      then show ?thesis using i1 by simp
    next
      case (Some ed)
      then have "fire innerHTML tm st
          = setContent (spread_update (content ?st1) (innerHTML (element ed)) (clock ?st1)) ?st1"
        using UpdateContent by (simp add: fire_def run_task_def)
      then show ?thesis using setContent_invariants[OF i1(1)] by simp
    qed
  next
    case HideNotification
    have "fire innerHTML tm st = ?st1\<lparr>notification := (notification ?st1)\<lparr>visible := False\<rparr>\<rparr>"
      using HideNotification by (simp add: fire_def run_task_def)
    then show ?thesis using invariants_timers_eq[OF i1, of "fire innerHTML tm st"] by simp
  next
    case FocusEditor
    have "fire innerHTML tm st =
        ?st1\<lparr>editorRef := map_option (\<lambda>ed. ed\<lparr>focused := True\<rparr>) (editorRef ?st1)\<rparr>"
      using FocusEditor by (simp add: fire_def run_task_def)
    then show ?thesis using invariants_timers_eq[OF i1, of "fire innerHTML tm st"] by simp
  qed
  then show "autosave_tracked (fire innerHTML tm st)" and "autosave_current (fire innerHTML tm st)"
    by simp_all
qed

lemma handlers_do_not_write:
  "setItem_calls (handleContentChange innerHTML b st) = setItem_calls st"
  "setItem_calls (handleCompositionStart st) = setItem_calls st"
  "setItem_calls (handleCompositionEnd st) = setItem_calls st"
  "setItem_calls (handleClear st) = setItem_calls st"
  by (simp_all add: handleContentChange_def handleCompositionStart_def handleCompositionEnd_def
      handleClear_def showNotification_def setTimeout_def Let_def split: option.splits)

lemma fire_other_does_not_write:
  "\<not> is_autosave tm \<Longrightarrow> setItem_calls (fire innerHTML tm st) = setItem_calls st"
  by (cases "task tm")
    (simp_all add: fire_def run_task_def is_autosave_def Let_def split: sum.splits option.splits)

lemma fire_autosave_current:
  assumes "autosave_current st" and "tm \<in> set (timers st)" and "is_autosave tm"
  shows "setItem_calls (fire innerHTML tm st) =
     setItem_calls st @ [(STORAGE_KEY, JSON_stringify (content st))]"
proof -
  have "task tm = Autosave (content st)" using assms by (simp add: autosave_current_def)
  then show ?thesis by (rule fire_autosave(2))
qed


section \<open>Restoring the cursor\<close>

lemma restore_catch_Inr: "\<exists>ed'. restore_catch ed = Inr ed'"
  by (simp add: restore_catch_def)

text \<open>\<open>restoreCursorPosition\<close> never ends with an exception.\<close>

lemma restoreCursorPosition_never_raises:
  "\<exists>e'. restoreCursorPosition position e = Inr e'"
proof (cases position)
  case None
  then show ?thesis by (simp add: restoreCursorPosition_def)
next
  case (Some pos)
  show ?thesis
  proof (cases e)
    case None
    then show ?thesis using Some by (simp add: restoreCursorPosition_def)
  next
    case (Some ed)
    then show ?thesis using \<open>position = Some pos\<close>
      by (cases "restore_try pos ed") (simp_all add: restoreCursorPosition_def restore_catch_def)
  qed
qed

text \<open>When \<open>setStart\<close> or \<open>setEnd\<close> throws (an offset beyond the node's length), the
  selection becomes the caret at the end of the editor's content.\<close>

lemma restoreCursorPosition_fallback:
  assumes "container_length (element ed) (startContainer pos) < startOffset pos \<or>
           (container_length (element ed) (endContainer pos) < endOffset pos)"
  shows "restoreCursorPosition (Some pos) (Some ed) =
     Inr (Some (ed\<lparr>selection :=
        Some \<lparr>startContainer = Within [], startOffset = node_length (element ed),
              endContainer = Within [], endOffset = node_length (element ed)\<rparr>\<rparr>))"
proof -
  have "\<exists>ex. restore_try pos ed = Inl ex"
    using assms by (auto simp: restore_try_def setStart_def setEnd_def split: sum.splits)
  then show ?thesis
    by (auto simp: restoreCursorPosition_def restore_catch_def collapse_def
        selectNodeContents_editor_def addRange_def removeAllRanges_def)
qed

text \<open>
  C6 at the failing input: a saved position whose container, a text node, has been
  removed from the tree. \<open>setStart\<close> and \<open>setEnd\<close> accept the node, \<open>addRange\<close> ignores
  the range, which is in no document: nothing is thrown, the \<open>catch\<close> block does not
  run, and the selection is left empty instead of at the end of the content, which
  would be the caret at \<open>(editor, 1)\<close>.
\<close>

theorem restore_detached_anchor:
  "restoreCursorPosition
     (Some \<lparr>startContainer = Detached 1 (TextNode (js ''ab'')), startOffset = 1,
            endContainer = Detached 1 (TextNode (js ''ab'')), endOffset = 1\<rparr>)
     (Some \<lparr>element = ElementNode ''DIV'' [] no_metrics [TextNode (js ''xyz'')],
            selection = Some \<lparr>startContainer = Within [0], startOffset = 2,
                               endContainer = Within [0], endOffset = 2\<rparr>,
            focused = True\<rparr>)
   = Inr (Some \<lparr>element = ElementNode ''DIV'' [] no_metrics [TextNode (js ''xyz'')],
                selection = None, focused = True\<rparr>) \<and>
   restoreCursorPosition
     (Some \<lparr>startContainer = Detached 1 (TextNode (js ''ab'')), startOffset = 1,
            endContainer = Detached 1 (TextNode (js ''ab'')), endOffset = 1\<rparr>)
     (Some \<lparr>element = ElementNode ''DIV'' [] no_metrics [TextNode (js ''xyz'')],
            selection = Some \<lparr>startContainer = Within [0], startOffset = 2,
                               endContainer = Within [0], endOffset = 2\<rparr>,
            focused = True\<rparr>)
   \<noteq> Inr (Some \<lparr>element = ElementNode ''DIV'' [] no_metrics [TextNode (js ''xyz'')],
                selection = Some \<lparr>startContainer = Within [], startOffset = 1,
                                   endContainer = Within [], endOffset = 1\<rparr>,
                focused = True\<rparr>)"
  by (simp add: restoreCursorPosition_def restore_try_def setStart_def setEnd_def createRange_def
      container_length_def js_def addRange_def removeAllRanges_def)


section \<open>Inserting the pasted image\<close>

lemma path_less_irrefl [simp]: "\<not> path_less p p"
  by (induction p) simp_all

lemma path_less_Nil_right [simp]: "\<not> path_less p []"
  by (cases p) simp_all

lemma node_at_snoc:
  "node_at r (q @ [i]) = Some x \<Longrightarrow>
   \<exists>tag attrs m ks. node_at r q = Some (ElementNode tag attrs m ks) \<and> i < length ks \<and> ks ! i = x"
proof (induction q arbitrary: r)
  case Nil
  then show ?case by (cases r) (auto split: if_splits)
next
  case (Cons j q)
  then show ?case by (cases r) (auto split: if_splits)
qed

lemma node_at_map_kids:
  "node_at r p = Some (ElementNode tag attrs m ks) \<Longrightarrow>
   node_at (map_kids p f r) p = Some (ElementNode tag attrs m (f ks))"
proof (induction p arbitrary: r)
  case Nil
  then show ?case by simp
next
  case (Cons i p)
  then show ?case by (cases r) (auto split: if_splits)
qed

lemma map_kids_twice:
  "map_kids p f (map_kids p g r) = map_kids p (\<lambda>ks. f (g ks)) r"
proof (induction p arbitrary: r)
  case Nil
  then show ?case by (cases r) simp_all
next
  case (Cons i p)
  then show ?case by (cases r) simp_all
qed

text \<open>Inserting into an element at a collapsed range, then \<open>setStartAfter\<close> the new
  node: the node is the child at the offset and the range is collapsed after it.\<close>

lemma insert_in_element:
  fixes n :: node and off :: nat
  assumes at: "node_at r p = Some (ElementNode tag attrs m ks)" and off: "off \<le> length ks"
  defines "rg \<equiv> \<lparr>startContainer = Within p, startOffset = off,
                  endContainer = Within p, endOffset = off\<rparr>"
  defines "r' \<equiv> map_kids p (\<lambda>ks. take off ks @ n # drop off ks) r"
  shows "\<exists>rg' w. insertNode r rg n = Inr (r', rg', w) \<and>
           setStartAfter r' rg' w =
             Inr \<lparr>startContainer = Within p, startOffset = Suc off,
                  endContainer = Within p, endOffset = Suc off\<rparr>"
    and "node_at r' p = Some (ElementNode tag attrs m (take off ks @ n # drop off ks))"
proof -
  show at': "node_at r' p = Some (ElementNode tag attrs m (take off ks @ n # drop off ks))"
    unfolding r'_def by (rule node_at_map_kids[OF at])
  let ?rg' = "\<lparr>startContainer = Within p, startOffset = off,
               endContainer = Within p, endOffset = Suc off\<rparr>"
  have ins: "insertNode r rg n = Inr (r', ?rg', Within (p @ [off]))"
    using at by (simp add: insertNode_def rg_def r'_def moved_end_def shift_boundary_def)
  have len: "container_length r' (Within p) = Suc (length ks)"
    using at' off by (simp add: container_length_def)
  have "setStartAfter r' ?rg' (Within (p @ [off])) =
      Inr \<lparr>startContainer = Within p, startOffset = Suc off,
           endContainer = Within p, endOffset = Suc off\<rparr>"
    using off by (simp add: setStartAfter_def setStart_def len)
  then show "\<exists>rg' w. insertNode r rg n = Inr (r', rg', w) \<and>
           setStartAfter r' rg' w =
             Inr \<lparr>startContainer = Within p, startOffset = Suc off,
                  endContainer = Within p, endOffset = Suc off\<rparr>"
    using ins by blast
qed

text \<open>Inserting into a text node at a collapsed range: the node goes between the two
  halves, and \<open>setStartAfter\<close> collapses the range after it, in the parent.\<close>

lemma insert_in_text:
  fixes n :: node and off :: nat
  assumes at: "node_at r (q @ [i]) = Some (TextNode t)"
  defines "rg \<equiv> \<lparr>startContainer = Within (q @ [i]), startOffset = off,
                  endContainer = Within (q @ [i]), endOffset = off\<rparr>"
  defines "r' \<equiv> map_kids q (\<lambda>ks. take i ks @ [TextNode (take off t), n, TextNode (drop off t)]
                                   @ drop (Suc i) ks) r"
  shows "\<exists>rg' w. insertNode r rg n = Inr (r', rg', w) \<and>
           setStartAfter r' rg' w =
             Inr \<lparr>startContainer = Within q, startOffset = i + 2,
                  endContainer = Within q, endOffset = i + 2\<rparr>"
    and "\<exists>tag attrs m ks. node_at r q = Some (ElementNode tag attrs m ks) \<and> i < length ks \<and>
           node_at r' q = Some (ElementNode tag attrs m
             (take i ks @ [TextNode (take off t), n, TextNode (drop off t)] @ drop (Suc i) ks))"
proof -
  from node_at_snoc[OF at] obtain tag attrs m ks
    where q: "node_at r q = Some (ElementNode tag attrs m ks)" and i: "i < length ks"
    by blast
  have at': "node_at r' q = Some (ElementNode tag attrs m
             (take i ks @ [TextNode (take off t), n, TextNode (drop off t)] @ drop (Suc i) ks))"
    unfolding r'_def by (rule node_at_map_kids[OF q])
  show "\<exists>tag attrs m ks. node_at r q = Some (ElementNode tag attrs m ks) \<and> i < length ks \<and>
           node_at r' q = Some (ElementNode tag attrs m
             (take i ks @ [TextNode (take off t), n, TextNode (drop off t)] @ drop (Suc i) ks))"
    using q i at' by blast
  let ?rg' = "\<lparr>startContainer = Within (q @ [i]), startOffset = off,
               endContainer = Within q, endOffset = i + 2\<rparr>"
  have ins: "insertNode r rg n = Inr (r', ?rg', Within (q @ [Suc i]))"
    using at by (simp add: insertNode_def rg_def r'_def moved_end_def Let_def)
  have len: "container_length r' (Within q) = length ks + 2"
    using at' i by (simp add: container_length_def)
  have "setStartAfter r' ?rg' (Within (q @ [Suc i])) =
      Inr \<lparr>startContainer = Within q, startOffset = i + 2,
           endContainer = Within q, endOffset = i + 2\<rparr>"
    using i by (simp add: setStartAfter_def setStart_def len)
  then show "\<exists>rg' w. insertNode r rg n = Inr (r', rg', w) \<and>
           setStartAfter r' rg' w =
             Inr \<lparr>startContainer = Within q, startOffset = i + 2,
                  endContainer = Within q, endOffset = i + 2\<rparr>"
    using ins by blast
qed


subsection \<open>deleteContents leaves a valid collapsed range\<close>

lemma cut_length: "a \<le> b \<Longrightarrow> a \<le> node_length n \<Longrightarrow> a \<le> node_length (cut a b n)"
  by (cases n) simp_all

lemma cut_not_Other: "n \<noteq> OtherNode \<Longrightarrow> cut a b n \<noteq> OtherNode"
  by (cases n) simp_all

lemma node_at_Cons_Some:
  "node_at n (i # p) = Some x \<Longrightarrow>
   \<exists>tag attrs m kids. n = ElementNode tag attrs m kids \<and> i < length kids \<and> node_at (kids ! i) p = Some x"
  by (cases n) (auto split: if_splits)

lemma delete_between_valid:
  "node_at n ps = Some a \<Longrightarrow> a \<noteq> OtherNode \<Longrightarrow> so \<le> node_length a \<Longrightarrow>
   node_at n pe = Some b \<Longrightarrow> eo \<le> node_length b \<Longrightarrow>
   \<not> path_less (pe @ [eo]) (ps @ [so]) \<Longrightarrow>
   delete_between n ps so pe eo = (n', p, off) \<Longrightarrow>
   \<exists>x. node_at n' p = Some x \<and> x \<noteq> OtherNode \<and> off \<le> node_length x"
proof (induction n ps so pe eo arbitrary: n' p off a b rule: delete_between.induct)
  case (1 n so eo)
  then have "so \<le> eo" by simp
  then show ?case using 1 cut_length[of so eo n] cut_not_Other[of n so eo] by auto
next
  case (2 tag attrs m kids so j pe eo)
  from node_at_Cons_Some[OF "2.prems"(4)] have j: "j < length kids" by simp
  have "so \<le> j" using "2.prems"(6) by simp
  then show ?case using 2 j by auto
next
  case (3 tag attrs m kids i ps so eo)
  from node_at_Cons_Some[OF "3.prems"(1)] have i: "i < length kids" by simp
  then show ?case using 3 by auto
next
  case (4 tag attrs m kids i ps so j pe eo)
  from node_at_Cons_Some[OF "4.prems"(1)]
  have i: "i < length kids" and a: "node_at (kids ! i) ps = Some a" by simp_all
  from node_at_Cons_Some[OF "4.prems"(4)]
  have j: "j < length kids" and b: "node_at (kids ! j) pe = Some b" by simp_all
  show ?case
  proof (cases "i = j")
    case True
    obtain k q o' where d: "delete_between (kids ! i) ps so pe eo = (k, q, o')"
      by (cases "delete_between (kids ! i) ps so pe eo") auto
    have ord: "\<not> path_less (pe @ [eo]) (ps @ [so])" using "4.prems"(6) True by simp
    from "4.IH"[OF True i a "4.prems"(2,3) b[folded True] "4.prems"(5) ord d]
    obtain x where x: "node_at k q = Some x" "x \<noteq> OtherNode" "o' \<le> node_length x" by blast
    have "n' = ElementNode tag attrs m (kids[i := k])" and "p = i # q" and "off = o'"
      using "4.prems"(7) True i d by simp_all
    then show ?thesis using x i by simp
  next
    case False
    then have "n' = ElementNode tag attrs m
              (take i kids @ delete_after (kids ! i) ps so # delete_before (kids ! j) pe eo
                 # drop (Suc j) kids)" and "p = []" and "off = Suc i"
      using "4.prems"(7) i j by simp_all
    then show ?thesis using i by simp
  qed
qed simp_all

lemma deleteContents_valid:
  assumes v: "valid_range r rg" and s: "startContainer rg = Within ps"
    and k: "node_at r ps \<noteq> Some OtherNode"
  shows "\<exists>r1 p off x. deleteContents r rg =
            (r1, \<lparr>startContainer = Within p, startOffset = off,
                  endContainer = Within p, endOffset = off\<rparr>) \<and>
          node_at r1 p = Some x \<and> x \<noteq> OtherNode \<and> off \<le> node_length x"
proof -
  obtain pe where e: "endContainer rg = Within pe"
    using v s by (cases "endContainer rg") (simp_all add: valid_range_def)
  obtain a where a: "node_at r ps = Some a" "startOffset rg \<le> node_length a"
    using v s e by (auto simp: valid_range_def valid_boundary_def split: option.splits)
  obtain b where b: "node_at r pe = Some b" "endOffset rg \<le> node_length b"
    using v s e by (auto simp: valid_range_def valid_boundary_def split: option.splits)
  have ord: "\<not> path_less (pe @ [endOffset rg]) (ps @ [startOffset rg])"
    using v s e by (simp add: valid_range_def)
  have ak: "a \<noteq> OtherNode" using a k by auto
  show ?thesis
  proof (cases "collapsed rg")
    case True
    then have "rg = \<lparr>startContainer = Within ps, startOffset = startOffset rg,
                     endContainer = Within ps, endOffset = startOffset rg\<rparr>"
      using s by (cases rg) (simp add: collapsed_def)
    moreover have "deleteContents r rg = (r, rg)" using True s e by (simp add: deleteContents_def)
    ultimately show ?thesis using a ak by metis
  next
    case False
    obtain r1 p off where d: "delete_between r ps (startOffset rg) pe (endOffset rg) = (r1, p, off)"
      by (cases "delete_between r ps (startOffset rg) pe (endOffset rg)") auto
    from delete_between_valid[OF a(1) ak a(2) b ord d]
    obtain x where "node_at r1 p = Some x" "x \<noteq> OtherNode" "off \<le> node_length x" by blast
    moreover have "deleteContents r rg =
        (r1, \<lparr>startContainer = Within p, startOffset = off,
              endContainer = Within p, endOffset = off\<rparr>)"
      using False s e d by (simp add: deleteContents_def)
    ultimately show ?thesis by blast
  qed
qed


subsection \<open>What deleteContents keeps\<close>

lemma textContents_append [simp]: "textContents (xs @ ys) = textContents xs @ textContents ys"
  by (induction xs) simp_all

lemma textContents_split:
  "i < length kids \<Longrightarrow>
   textContents kids = textContents (take i kids) @ textContent (kids ! i) @ textContents (drop (Suc i) kids)"
proof -
  assume i: "i < length kids"
  have "kids = take i kids @ kids ! i # drop (Suc i) kids" using i by (simp add: id_take_nth_drop)
  then have "textContents kids = textContents (take i kids @ kids ! i # drop (Suc i) kids)" by simp
  then show ?thesis by simp
qed

lemma text_before_after:
  "node_at n p = Some x \<Longrightarrow> off \<le> node_length x \<Longrightarrow>
   text_before n p off @ text_after n p off = textContent n"
proof (induction p arbitrary: n)
  case Nil
  then show ?case
  proof (cases n)
    case (ElementNode tag attrs m kids)
    have "textContents (take off kids) @ textContents (drop off kids) = textContents kids"
      by (metis append_take_drop_id textContents_append)
    then show ?thesis using ElementNode by simp
  qed auto
next
  case (Cons i p)
  from node_at_Cons_Some[OF Cons.prems(1)] obtain tag attrs m kids where
    n: "n = ElementNode tag attrs m kids" and i: "i < length kids" and a: "node_at (kids ! i) p = Some x"
    by blast
  show ?case using Cons.IH[OF a Cons.prems(2)] textContents_split[OF i] n i by simp
qed

lemma delete_after_text:
  "node_at n p = Some x \<Longrightarrow> off \<le> node_length x \<Longrightarrow>
   textContent (delete_after n p off) = text_before n p off"
proof (induction p arbitrary: n)
  case Nil
  then show ?case by (cases n) auto
next
  case (Cons i p)
  from node_at_Cons_Some[OF Cons.prems(1)] obtain tag attrs m kids where
    n: "n = ElementNode tag attrs m kids" and i: "i < length kids" and a: "node_at (kids ! i) p = Some x"
    by blast
  show ?case using Cons.IH[OF a Cons.prems(2)] n i by simp
qed

lemma delete_before_text:
  "node_at n p = Some x \<Longrightarrow> off \<le> node_length x \<Longrightarrow>
   textContent (delete_before n p off) = text_after n p off"
proof (induction p arbitrary: n)
  case Nil
  then show ?case by (cases n) auto
next
  case (Cons i p)
  from node_at_Cons_Some[OF Cons.prems(1)] obtain tag attrs m kids where
    n: "n = ElementNode tag attrs m kids" and i: "i < length kids" and a: "node_at (kids ! i) p = Some x"
    by blast
  show ?case using Cons.IH[OF a Cons.prems(2)] n i by simp
qed

lemma delete_between_text:
  "node_at n ps = Some a \<Longrightarrow> so \<le> node_length a \<Longrightarrow>
   node_at n pe = Some b \<Longrightarrow> eo \<le> node_length b \<Longrightarrow>
   \<not> path_less (pe @ [eo]) (ps @ [so]) \<Longrightarrow>
   delete_between n ps so pe eo = (n', p, off) \<Longrightarrow>
   text_before n' p off = text_before n ps so \<and> text_after n' p off = text_after n pe eo"
proof (induction n ps so pe eo arbitrary: n' p off a b rule: delete_between.induct)
  case (1 n so eo)
  then have le: "so \<le> eo" by simp
  show ?case
  proof (cases n)
    case (TextNode t)
    then show ?thesis using 1 le by auto
  next
    case (ElementNode tag attrs m kids)
    then show ?thesis using 1 le by auto
  next
    case OtherNode
    then show ?thesis using 1 by auto
  qed
next
  case (2 tag attrs m kids so j pe eo)
  from node_at_Cons_Some[OF "2.prems"(3)] have j: "j < length kids"
    and b: "node_at (kids ! j) pe = Some b" by simp_all
  have le: "so \<le> j" using "2.prems"(5) by simp
  have n': "n' = ElementNode tag attrs m (take so kids @ delete_before (kids ! j) pe eo # drop (Suc j) kids)"
    and p: "p = []" and off: "off = so"
    using "2.prems"(6) j by auto
  have l: "length (take so kids) = so" using le j by simp
  show ?case
    unfolding n' p off using l delete_before_text[OF b "2.prems"(4)] j by simp
next
  case (3 tag attrs m kids i ps so eo)
  from node_at_Cons_Some[OF "3.prems"(1)] have i: "i < length kids"
    and a: "node_at (kids ! i) ps = Some a" by simp_all
  have nl: "path_less [] (ps @ [so])" by (cases ps) simp_all
  have lt: "i < eo" using "3.prems"(5) nl by (cases "eo < i"; cases "eo = i") auto
  have n': "n' = ElementNode tag attrs m (take i kids @ delete_after (kids ! i) ps so # drop eo kids)"
    and p: "p = []" and off: "off = Suc i"
    using "3.prems"(6) i by auto
  have l: "length (take i kids) = i" using i by simp
  have t1: "take (Suc i) (take i kids @ delete_after (kids ! i) ps so # drop eo kids)
      = take i kids @ [delete_after (kids ! i) ps so]" using l by simp
  have t2: "drop (Suc i) (take i kids @ delete_after (kids ! i) ps so # drop eo kids)
      = drop eo kids" using l by simp
  show ?case
    unfolding n' p off using delete_after_text[OF a "3.prems"(2)] i
    by (simp only: text_before.simps text_after.simps t1 t2) simp
next
  case (4 tag attrs m kids i ps so j pe eo)
  from node_at_Cons_Some[OF "4.prems"(1)]
  have i: "i < length kids" and a: "node_at (kids ! i) ps = Some a" by simp_all
  from node_at_Cons_Some[OF "4.prems"(3)]
  have j: "j < length kids" and b: "node_at (kids ! j) pe = Some b" by simp_all
  show ?case
  proof (cases "i = j")
    case True
    obtain k q o' where d: "delete_between (kids ! i) ps so pe eo = (k, q, o')"
      by (cases "delete_between (kids ! i) ps so pe eo") auto
    have ord: "\<not> path_less (pe @ [eo]) (ps @ [so])" using "4.prems"(5) True by simp
    note IH = "4.IH"[OF True i a "4.prems"(2) b[folded True] "4.prems"(4) ord d]
    have n': "n' = ElementNode tag attrs m (kids[i := k])" and p: "p = i # q" and off: "off = o'"
      using "4.prems"(6) True i d by auto
    show ?thesis unfolding n' p off using IH i True by simp
  next
    case False
    then have lt: "i < j" using "4.prems"(5) by auto
    have n': "n' = ElementNode tag attrs m
              (take i kids @ delete_after (kids ! i) ps so # delete_before (kids ! j) pe eo
                 # drop (Suc j) kids)" and p: "p = []" and off: "off = Suc i"
      using "4.prems"(6) i j False by auto
    have l: "length (take i kids) = i" using i by simp
    have t1: "take (Suc i) (take i kids @ delete_after (kids ! i) ps so # delete_before (kids ! j) pe eo
                 # drop (Suc j) kids) = take i kids @ [delete_after (kids ! i) ps so]" using l by simp
    have t2: "drop (Suc i) (take i kids @ delete_after (kids ! i) ps so # delete_before (kids ! j) pe eo
                 # drop (Suc j) kids) = delete_before (kids ! j) pe eo # drop (Suc j) kids" using l by simp
    show ?thesis
      unfolding n' p off
      using delete_after_text[OF a "4.prems"(2)] delete_before_text[OF b "4.prems"(4)] i j False
      by (simp only: text_before.simps text_after.simps t1 t2) simp
  qed
qed simp_all


lemma map_kids_cong:
  "node_at r p = Some (ElementNode tag attrs m ks) \<Longrightarrow> f ks = g ks \<Longrightarrow>
   map_kids p f r = map_kids p g r"
proof (induction p arbitrary: r)
  case Nil
  then show ?case by simp
next
  case (Cons i p)
  then show ?case by (cases r) (auto split: if_splits)
qed

text \<open>The three insertions one after the other, from a range collapsed in an
  element.\<close>

lemma three_insertions:
  fixes w :: node
  assumes at: "node_at r1 p = Some (ElementNode tag attrs m ks)" and off: "off \<le> length ks"
  defines "c \<equiv> (\<lambda>k. \<lparr>startContainer = Within p, startOffset = k,
                       endContainer = Within p, endOffset = k\<rparr>)"
  shows "\<exists>r2 rg2 a r3 rg4 b r4 rg6 d.
           insertNode r1 (c off) w = Inr (r2, rg2, a) \<and> setStartAfter r2 rg2 a = Inr (c (Suc off)) \<and>
           insertNode r2 (c (Suc off)) ZWSP = Inr (r3, rg4, b) \<and>
           setStartAfter r3 rg4 b = Inr (c (Suc (Suc off))) \<and>
           insertNode r3 (c (Suc (Suc off))) SPACE = Inr (r4, rg6, d) \<and>
           setStartAfter r4 rg6 d = Inr (c (Suc (Suc (Suc off)))) \<and>
           r4 = map_kids p (\<lambda>ks. take off ks @ [w, ZWSP, SPACE] @ drop off ks) r1"
proof -
  let ?f1 = "\<lambda>ks. take off ks @ w # drop off ks"
  let ?f2 = "\<lambda>ks. take (Suc off) ks @ ZWSP # drop (Suc off) ks"
  let ?f3 = "\<lambda>ks. take (Suc (Suc off)) ks @ SPACE # drop (Suc (Suc off)) ks"
  let ?r2 = "map_kids p ?f1 r1"
  let ?r3 = "map_kids p ?f2 ?r2"
  let ?r4 = "map_kids p ?f3 ?r3"
  note s1 = insert_in_element[OF at off, of w]
  have o2: "Suc off \<le> length (?f1 ks)" using off by simp
  note s2 = insert_in_element[OF s1(2) o2, of ZWSP]
  have o3: "Suc (Suc off) \<le> length (?f2 (?f1 ks))" using off by simp
  note s3 = insert_in_element[OF s2(2) o3, of SPACE]
  have "?r4 = map_kids p (\<lambda>ks. ?f3 (?f2 (?f1 ks))) r1"
    by (simp only: map_kids_twice)
  also have "\<dots> = map_kids p (\<lambda>ks. take off ks @ [w, ZWSP, SPACE] @ drop off ks) r1"
    by (rule map_kids_cong[OF at]) (use off in simp)
  finally have r4: "?r4 = map_kids p (\<lambda>ks. take off ks @ [w, ZWSP, SPACE] @ drop off ks) r1" .
  from s1(1) obtain rg2 a where i1: "insertNode r1 (c off) w = Inr (?r2, rg2, a)"
    and a1: "setStartAfter ?r2 rg2 a = Inr (c (Suc off))" unfolding c_def by blast
  from s2(1) obtain rg4 b where i2: "insertNode ?r2 (c (Suc off)) ZWSP = Inr (?r3, rg4, b)"
    and a2: "setStartAfter ?r3 rg4 b = Inr (c (Suc (Suc off)))" unfolding c_def by blast
  from s3(1) obtain rg6 d where i3: "insertNode ?r3 (c (Suc (Suc off))) SPACE = Inr (?r4, rg6, d)"
    and a3: "setStartAfter ?r4 rg6 d = Inr (c (Suc (Suc (Suc off))))" unfolding c_def by blast
  show ?thesis using i1 a1 i2 a2 i3 a3 r4 by blast
qed


lemma delete_between_root:
  "\<exists>kids'. fst (delete_between (ElementNode tag attrs m kids) ps so pe eo)
      = ElementNode tag attrs m kids'"
  by (cases ps; cases pe) (auto split: prod.splits)

lemma deleteContents_root:
  "\<exists>kids'. fst (deleteContents (ElementNode tag attrs m kids) rg) = ElementNode tag attrs m kids'"
proof -
  obtain kids' where "fst (delete_between (ElementNode tag attrs m kids)
      (case startContainer rg of Within ps \<Rightarrow> ps | _ \<Rightarrow> []) (startOffset rg)
      (case endContainer rg of Within pe \<Rightarrow> pe | _ \<Rightarrow> []) (endOffset rg))
      = ElementNode tag attrs m kids'"
    using delete_between_root by blast
  then show ?thesis
    by (auto simp: deleteContents_def split: container.splits prod.splits)
qed

lemma set_selection:
  "addRange (collapse True \<lparr>startContainer = Within p, startOffset = k,
                             endContainer = Within p, endOffset = k\<rparr>)
            (removeAllRanges (ed\<lparr>element := r\<rparr>))
   = ed\<lparr>element := r,
         selection := Some \<lparr>startContainer = Within p, startOffset = k,
                            endContainer = Within p, endOffset = k\<rparr>\<rparr>"
  by (simp add: addRange_def removeAllRanges_def collapse_def)

lemma map_kids_same: "map_kids p (\<lambda>ks. ks) r = r"
proof (induction p arbitrary: r)
  case Nil
  then show ?case by (cases r) simp_all
next
  case (Cons i p)
  then show ?case by (cases r) simp_all
qed

lemma map_kids_id:
  "node_at r p = Some (ElementNode tag attrs m ks) \<Longrightarrow> f ks = ks \<Longrightarrow> map_kids p f r = r"
  using map_kids_cong[of r p tag attrs m ks f "\<lambda>ks. ks"] by (simp add: map_kids_same)

lemma textContents_update:
  "i < length kids \<Longrightarrow>
   textContents (kids[i := y]) = textContents (take i kids) @ textContent y @ textContents (drop (Suc i) kids)"
  by (simp add: upd_conv_take_nth_drop)

lemma map_kids_text:
  "node_at r p = Some (ElementNode tag attrs m ks) \<Longrightarrow> so \<le> length ks \<Longrightarrow>
   textContent (map_kids p (\<lambda>ks. take so ks @ X @ drop eo ks) r)
     = text_before r p so @ textContents X @ text_after r p eo"
proof (induction p arbitrary: r)
  case Nil
  then show ?case by simp
next
  case (Cons i p)
  from node_at_Cons_Some[OF Cons.prems(1)] obtain tag' attrs' m' kids where
    r: "r = ElementNode tag' attrs' m' kids" and i: "i < length kids"
    and a: "node_at (kids ! i) p = Some (ElementNode tag attrs m ks)"
    by blast
  show ?case using Cons.IH[OF a Cons.prems(2)] r i by (simp add: textContents_update)
qed

lemma map_kids_text_split:
  "node_at r (q @ [i]) = Some (TextNode t) \<Longrightarrow>
   textContent (map_kids q (\<lambda>ks. take i ks @ [TextNode (take so t)] @ X @ [TextNode (drop eo t)]
                                   @ drop (Suc i) ks) r)
     = text_before r (q @ [i]) so @ textContents X @ text_after r (q @ [i]) eo"
proof (induction q arbitrary: r)
  case Nil
  from node_at_Cons_Some[of r i "[]" "TextNode t"] Nil obtain tag attrs m kids where
    r: "r = ElementNode tag attrs m kids" and i: "i < length kids" and a: "kids ! i = TextNode t"
    by auto
  show ?case using r i a by simp
next
  case (Cons j q)
  from node_at_Cons_Some[of r j "q @ [i]" "TextNode t"] Cons.prems obtain tag attrs m kids where
    r: "r = ElementNode tag attrs m kids" and j: "j < length kids"
    and a: "node_at (kids ! j) (q @ [i]) = Some (TextNode t)"
    by auto
  show ?case using Cons.IH[OF a] r j by (simp add: textContents_update)
qed

lemma delete_between_same_element:
  "node_at n ps = Some (ElementNode tag attrs m ks) \<Longrightarrow>
   delete_between n ps so ps eo = (map_kids ps (\<lambda>ks. take so ks @ drop eo ks) n, ps, so)"
proof (induction ps arbitrary: n)
  case Nil
  then show ?case by simp
next
  case (Cons i ps)
  from node_at_Cons_Some[OF Cons.prems] obtain tag' attrs' m' kids where
    r: "n = ElementNode tag' attrs' m' kids" and i: "i < length kids"
    and a: "node_at (kids ! i) ps = Some (ElementNode tag attrs m ks)"
    by blast
  show ?case using Cons.IH[OF a] r i by simp
qed

lemma delete_between_same_text:
  "node_at n (q @ [i]) = Some (TextNode t) \<Longrightarrow>
   delete_between n (q @ [i]) so (q @ [i]) eo
     = (map_kids q (\<lambda>ks. ks[i := TextNode (take so t @ drop eo t)]) n, q @ [i], so)"
proof (induction q arbitrary: n)
  case Nil
  from node_at_Cons_Some[of n i "[]" "TextNode t"] Nil obtain tag attrs m kids where
    r: "n = ElementNode tag attrs m kids" and i: "i < length kids" and a: "kids ! i = TextNode t"
    by auto
  show ?case using r i a by simp
next
  case (Cons j q)
  from node_at_Cons_Some[of n j "q @ [i]" "TextNode t"] Cons.prems obtain tag attrs m kids where
    r: "n = ElementNode tag attrs m kids" and j: "j < length kids"
    and a: "node_at (kids ! j) (q @ [i]) = Some (TextNode t)"
    by auto
  show ?case using Cons.IH[OF a] r j by simp
qed

subsection \<open>The insertion after deleteContents\<close>

lemma insert_image_in_element:
  assumes sel: "selection ed = Some rg"
    and ine: "in_editor (startContainer rg) \<and> in_editor (endContainer rg)"
    and d: "deleteContents (element ed) rg =
        (r1, \<lparr>startContainer = Within p, startOffset = off,
              endContainer = Within p, endOffset = off\<rparr>)"
    and at: "node_at r1 p = Some (ElementNode tag attrs m ks)" and off: "off \<le> length ks"
  shows "insert_image w ed =
           Inr (ed\<lparr>element := map_kids p (\<lambda>ks. take off ks @ [w, ZWSP, SPACE] @ drop off ks) r1,
                   selection := Some \<lparr>startContainer = Within p, startOffset = off + 3,
                                      endContainer = Within p, endOffset = off + 3\<rparr>\<rparr>)"
proof -
  let ?c = "\<lambda>q k. \<lparr>startContainer = Within q, startOffset = k,
                    endContainer = Within q, endOffset = k\<rparr>"
  from three_insertions[OF at off, of w]
  obtain r2 rg2 a r3 rg4 b r4 rg6 e where
    s: "insertNode r1 (?c p off) w = Inr (r2, rg2, a)" "setStartAfter r2 rg2 a = Inr (?c p (Suc off))"
       "insertNode r2 (?c p (Suc off)) ZWSP = Inr (r3, rg4, b)"
       "setStartAfter r3 rg4 b = Inr (?c p (Suc (Suc off)))"
       "insertNode r3 (?c p (Suc (Suc off))) SPACE = Inr (r4, rg6, e)"
       "setStartAfter r4 rg6 e = Inr (?c p (Suc (Suc (Suc off))))"
    and r4: "r4 = map_kids p (\<lambda>ks. take off ks @ [w, ZWSP, SPACE] @ drop off ks) r1"
    by blast
  have "insert_image w ed =
      Inr (addRange (collapse True (?c p (Suc (Suc (Suc off))))) (removeAllRanges (ed\<lparr>element := r4\<rparr>)))"
    using sel ine d s by (simp add: insert_image_def)
  then show ?thesis by (simp add: set_selection r4 numeral_3_eq_3)
qed

lemma insert_image_in_text:
  assumes sel: "selection ed = Some rg"
    and ine: "in_editor (startContainer rg) \<and> in_editor (endContainer rg)"
    and d: "deleteContents (element ed) rg =
        (r1, \<lparr>startContainer = Within (q @ [i]), startOffset = off,
              endContainer = Within (q @ [i]), endOffset = off\<rparr>)"
    and at: "node_at r1 (q @ [i]) = Some (TextNode t)"
  shows "insert_image w ed =
           Inr (ed\<lparr>element :=
                     map_kids q
                       (\<lambda>ks. take i ks @ [TextNode (take off t), w, ZWSP, SPACE, TextNode (drop off t)]
                               @ drop (Suc i) ks) r1,
                   selection := Some \<lparr>startContainer = Within q, startOffset = i + 4,
                                      endContainer = Within q, endOffset = i + 4\<rparr>\<rparr>)"
proof -
  let ?c = "\<lambda>q k. \<lparr>startContainer = Within q, startOffset = k,
                    endContainer = Within q, endOffset = k\<rparr>"
  note t1 = insert_in_text[OF at, of off w]
  let ?F = "\<lambda>ks. take i ks @ [TextNode (take off t), w, TextNode (drop off t)] @ drop (Suc i) ks"
  let ?r2 = "map_kids q ?F r1"
  from t1(2) obtain tag attrs m ks where q: "node_at r1 q = Some (ElementNode tag attrs m ks)"
    and i: "i < length ks" and at2: "node_at ?r2 q = Some (ElementNode tag attrs m (?F ks))"
    by blast
  from t1(1) obtain rg2 a where i1: "insertNode r1 (?c (q @ [i]) off) w = Inr (?r2, rg2, a)"
    and a1: "setStartAfter ?r2 rg2 a = Inr (?c q (i + 2))" by blast
  let ?f2 = "\<lambda>ks. take (i + 2) ks @ ZWSP # drop (i + 2) ks"
  let ?f3 = "\<lambda>ks. take (Suc (i + 2)) ks @ SPACE # drop (Suc (i + 2)) ks"
  let ?r3 = "map_kids q ?f2 ?r2"
  let ?r4 = "map_kids q ?f3 ?r3"
  have o2: "i + 2 \<le> length (?F ks)" using i by simp
  note s2 = insert_in_element[OF at2 o2, of ZWSP]
  have o3: "Suc (i + 2) \<le> length (?f2 (?F ks))" using i by simp
  note s3 = insert_in_element[OF s2(2) o3, of SPACE]
  from s2(1) obtain rg4 b where i2: "insertNode ?r2 (?c q (i + 2)) ZWSP = Inr (?r3, rg4, b)"
    and a2: "setStartAfter ?r3 rg4 b = Inr (?c q (Suc (i + 2)))" by blast
  from s3(1) obtain rg6 e where i3: "insertNode ?r3 (?c q (Suc (i + 2))) SPACE = Inr (?r4, rg6, e)"
    and a3: "setStartAfter ?r4 rg6 e = Inr (?c q (Suc (Suc (i + 2))))" by blast
  have "?r4 = map_kids q (\<lambda>ks. ?f3 (?f2 (?F ks))) r1" by (simp only: map_kids_twice)
  also have "\<dots> = map_kids q
      (\<lambda>ks. take i ks @ [TextNode (take off t), w, ZWSP, SPACE, TextNode (drop off t)]
              @ drop (Suc i) ks) r1"
    by (rule map_kids_cong[OF q]) (use i in simp)
  finally have r4: "?r4 = map_kids q
      (\<lambda>ks. take i ks @ [TextNode (take off t), w, ZWSP, SPACE, TextNode (drop off t)]
              @ drop (Suc i) ks) r1" .
  have "insert_image w ed =
      Inr (addRange (collapse True (?c q (Suc (Suc (i + 2))))) (removeAllRanges (ed\<lparr>element := ?r4\<rparr>)))"
    using sel ine d i1 a1 i2 a2 i3 a3 by (simp add: insert_image_def)
  then show ?thesis by (simp only: set_selection r4) simp
qed

subsection \<open>deleteContents on a range within one node, and on the text\<close>

lemma path_less_same_prefix [simp]: "path_less (p @ [a]) (p @ [b]) \<longleftrightarrow> a < b"
  by (induction p) simp_all

lemma node_at_child:
  "node_at r q = Some (ElementNode tag attrs m ks) \<Longrightarrow> i < length ks \<Longrightarrow>
   node_at r (q @ [i]) = Some (ks ! i)"
proof (induction q arbitrary: r)
  case Nil
  then show ?case by simp
next
  case (Cons j q)
  then show ?case by (cases r) (auto split: if_splits)
qed

lemma deleteContents_same_element:
  assumes s: "startContainer rg = Within ps" and e: "endContainer rg = Within ps"
    and at: "node_at r ps = Some (ElementNode tag attrs m ks)"
    and le: "startOffset rg \<le> endOffset rg" "endOffset rg \<le> length ks"
  shows "deleteContents r rg =
      (map_kids ps (\<lambda>ks. take (startOffset rg) ks @ drop (endOffset rg) ks) r,
       \<lparr>startContainer = Within ps, startOffset = startOffset rg,
        endContainer = Within ps, endOffset = startOffset rg\<rparr>)"
proof (cases "collapsed rg")
  case True
  then have eq: "endOffset rg = startOffset rg" using s e by (simp add: collapsed_def)
  have rg: "rg = \<lparr>startContainer = Within ps, startOffset = startOffset rg,
                  endContainer = Within ps, endOffset = startOffset rg\<rparr>"
    using s e eq by (cases rg) simp
  have "map_kids ps (\<lambda>ks. take (startOffset rg) ks @ drop (endOffset rg) ks) r = r"
    by (rule map_kids_id[OF at]) (simp add: eq)
  moreover have "deleteContents r rg = (r, rg)" using True s e by (simp add: deleteContents_def)
  ultimately show ?thesis using rg by simp
next
  case False
  then show ?thesis
    using s e delete_between_same_element[OF at] by (simp add: deleteContents_def)
qed

lemma deleteContents_same_text:
  assumes s: "startContainer rg = Within (q @ [i])" and e: "endContainer rg = Within (q @ [i])"
    and at: "node_at r (q @ [i]) = Some (TextNode t)"
  shows "deleteContents r rg =
      (map_kids q (\<lambda>ks. ks[i := TextNode (take (startOffset rg) t @ drop (endOffset rg) t)]) r,
       \<lparr>startContainer = Within (q @ [i]), startOffset = startOffset rg,
        endContainer = Within (q @ [i]), endOffset = startOffset rg\<rparr>)"
proof (cases "collapsed rg")
  case True
  then have eq: "endOffset rg = startOffset rg" using s e by (simp add: collapsed_def)
  have rg: "rg = \<lparr>startContainer = Within (q @ [i]), startOffset = startOffset rg,
                  endContainer = Within (q @ [i]), endOffset = startOffset rg\<rparr>"
    using s e eq by (cases rg) simp
  from node_at_snoc[OF at] obtain tag attrs m ks where
    q: "node_at r q = Some (ElementNode tag attrs m ks)" and i: "i < length ks" "ks ! i = TextNode t"
    by blast
  have "map_kids q (\<lambda>ks. ks[i := TextNode (take (startOffset rg) t @ drop (endOffset rg) t)]) r = r"
    by (rule map_kids_id[OF q]) (use i in \<open>simp add: eq list_update_same_conv\<close>)
  moreover have "deleteContents r rg = (r, rg)" using True s e by (simp add: deleteContents_def)
  ultimately show ?thesis using rg by simp
next
  case False
  then show ?thesis
    using s e delete_between_same_text[OF at] by (simp add: deleteContents_def)
qed

lemma deleteContents_text:
  assumes v: "valid_range r rg" and s: "startContainer rg = Within ps"
    and e: "endContainer rg = Within pe"
    and d: "deleteContents r rg =
        (r1, \<lparr>startContainer = Within p, startOffset = off,
              endContainer = Within p, endOffset = off\<rparr>)"
  shows "text_before r1 p off = text_before r ps (startOffset rg)"
    and "text_after r1 p off = text_after r pe (endOffset rg)"
proof -
  obtain a where a: "node_at r ps = Some a" "startOffset rg \<le> node_length a"
    using v s e by (auto simp: valid_range_def valid_boundary_def split: option.splits)
  obtain b where b: "node_at r pe = Some b" "endOffset rg \<le> node_length b"
    using v s e by (auto simp: valid_range_def valid_boundary_def split: option.splits)
  have ord: "\<not> path_less (pe @ [endOffset rg]) (ps @ [startOffset rg])"
    using v s e by (simp add: valid_range_def)
  have "text_before r1 p off = text_before r ps (startOffset rg) \<and>
        text_after r1 p off = text_after r pe (endOffset rg)"
  proof (cases "collapsed rg")
    case True
    then have "deleteContents r rg = (r, rg)" using s e by (simp add: deleteContents_def)
    then have "r1 = r" "p = ps" "off = startOffset rg" "pe = ps" "endOffset rg = startOffset rg"
      using d s e True by (auto simp: collapsed_def)
    then show ?thesis by simp
  next
    case False
    then have "delete_between r ps (startOffset rg) pe (endOffset rg) = (r1, p, off)"
      using d s e by (auto simp: deleteContents_def split: prod.splits)
    from delete_between_text[OF a b ord this] show ?thesis .
  qed
  then show "text_before r1 p off = text_before r ps (startOffset rg)"
    and "text_after r1 p off = text_after r pe (endOffset rg)" by simp_all
qed

text \<open>
  C5. Let the selection be a valid range in the editor, from \<open>(ps, so)\<close> to \<open>(pe, eo)\<close>
  (the editor an element, the start container no comment node). The paste replaces
  the selected content by the widget and the two sentinels:

  \<^item> \<open>deleteContents\<close> leaves the range collapsed at a point \<open>(p, off)\<close>. If that point is
    in an element, its children become those before the offset, the widget, the
    zero-width space, the space, and those after the offset; if it is in a text node,
    the node is split there and the three stand between the halves. The two
    sentinels follow the widget immediately and in this order, nothing else is
    inserted, and the selection becomes the caret immediately after the space.
  \<^item> The text of the editor afterwards is the text before the start of the selection,
    the text of the widget, the zero-width space, the space, and the text after the
    end of the selection: what was selected is gone and everything else is kept.
  \<^item> A selection within one element: its children from \<open>so\<close> to \<open>eo\<close> are replaced by
    the widget, the zero-width space and the space, and the caret is at \<open>so + 3\<close>.
  \<^item> A selection within one text node: the node becomes its part before \<open>so\<close>, the
    widget, the zero-width space, the space, and its part after \<open>eo\<close>, and the caret
    is in the parent, after the space.
\<close>

theorem paste_inserts_widget_and_sentinels:
  assumes sel: "selection ed = Some rg" and valid: "valid_range (element ed) rg"
    and start: "startContainer rg = Within ps" and finish: "endContainer rg = Within pe"
    and kind: "node_at (element ed) ps \<noteq> Some OtherNode"
    and elem: "element ed = ElementNode etag eattrs em ekids"
  shows
   "(\<exists>r1 p off.
     deleteContents (element ed) rg =
       (r1, \<lparr>startContainer = Within p, startOffset = off,
             endContainer = Within p, endOffset = off\<rparr>) \<and>
     ((\<exists>tag attrs m ks.
         node_at r1 p = Some (ElementNode tag attrs m ks) \<and> off \<le> length ks \<and>
         insert_image w ed =
           Inr (ed\<lparr>element := map_kids p (\<lambda>ks. take off ks @ [w, ZWSP, SPACE] @ drop off ks) r1,
                   selection := Some \<lparr>startContainer = Within p, startOffset = off + 3,
                                      endContainer = Within p, endOffset = off + 3\<rparr>\<rparr>)) \<or>
      (\<exists>t q i.
         node_at r1 p = Some (TextNode t) \<and> p = q @ [i] \<and> off \<le> length t \<and>
         insert_image w ed =
           Inr (ed\<lparr>element :=
                     map_kids q
                       (\<lambda>ks. take i ks @ [TextNode (take off t), w, ZWSP, SPACE, TextNode (drop off t)]
                               @ drop (Suc i) ks) r1,
                   selection := Some \<lparr>startContainer = Within q, startOffset = i + 4,
                                      endContainer = Within q, endOffset = i + 4\<rparr>\<rparr>)))) \<and>
    (\<exists>ed'. insert_image w ed = Inr ed' \<and>
       textContent (element ed') =
         text_before (element ed) ps (startOffset rg) @ textContent w @ [0x200B, 0x0020]
           @ text_after (element ed) pe (endOffset rg)) \<and>
    (pe = ps \<longrightarrow>
       (\<forall>tag attrs m ks. node_at (element ed) ps = Some (ElementNode tag attrs m ks) \<longrightarrow>
          insert_image w ed =
            Inr (ed\<lparr>element :=
                      map_kids ps
                        (\<lambda>ks. take (startOffset rg) ks @ [w, ZWSP, SPACE] @ drop (endOffset rg) ks)
                        (element ed),
                    selection := Some \<lparr>startContainer = Within ps, startOffset = startOffset rg + 3,
                                       endContainer = Within ps, endOffset = startOffset rg + 3\<rparr>\<rparr>)) \<and>
       (\<forall>t q i. node_at (element ed) ps = Some (TextNode t) \<and> ps = q @ [i] \<longrightarrow>
          insert_image w ed =
            Inr (ed\<lparr>element :=
                      map_kids q
                        (\<lambda>ks. take i ks @ [TextNode (take (startOffset rg) t), w, ZWSP, SPACE,
                                            TextNode (drop (endOffset rg) t)]
                                @ drop (Suc i) ks)
                        (element ed),
                    selection := Some \<lparr>startContainer = Within q, startOffset = i + 4,
                                       endContainer = Within q, endOffset = i + 4\<rparr>\<rparr>)))"
proof -
  from deleteContents_valid[OF valid start kind]
  obtain r1 p off x where d: "deleteContents (element ed) rg =
        (r1, \<lparr>startContainer = Within p, startOffset = off,
              endContainer = Within p, endOffset = off\<rparr>)"
    and x: "node_at r1 p = Some x" "x \<noteq> OtherNode" "off \<le> node_length x"
    by blast
  have ine: "in_editor (startContainer rg) \<and> in_editor (endContainer rg)"
    using start finish by simp
  note tb = deleteContents_text[OF valid start finish d]
  have sent: "textContents [w, ZWSP, SPACE] = textContent w @ [0x200B, 0x0020]"
    by (simp add: ZWSP_def SPACE_def)
  have A: "(\<exists>tag attrs m ks.
         node_at r1 p = Some (ElementNode tag attrs m ks) \<and> off \<le> length ks \<and>
         insert_image w ed =
           Inr (ed\<lparr>element := map_kids p (\<lambda>ks. take off ks @ [w, ZWSP, SPACE] @ drop off ks) r1,
                   selection := Some \<lparr>startContainer = Within p, startOffset = off + 3,
                                      endContainer = Within p, endOffset = off + 3\<rparr>\<rparr>)) \<or>
      (\<exists>t q i.
         node_at r1 p = Some (TextNode t) \<and> p = q @ [i] \<and> off \<le> length t \<and>
         insert_image w ed =
           Inr (ed\<lparr>element :=
                     map_kids q
                       (\<lambda>ks. take i ks @ [TextNode (take off t), w, ZWSP, SPACE, TextNode (drop off t)]
                               @ drop (Suc i) ks) r1,
                   selection := Some \<lparr>startContainer = Within q, startOffset = i + 4,
                                      endContainer = Within q, endOffset = i + 4\<rparr>\<rparr>))"
    and B: "\<exists>ed'. insert_image w ed = Inr ed' \<and>
       textContent (element ed') =
         text_before (element ed) ps (startOffset rg) @ textContent w @ [0x200B, 0x0020]
           @ text_after (element ed) pe (endOffset rg)"
  proof (atomize (full), cases x)
    case (ElementNode tag attrs m ks)
    then have at: "node_at r1 p = Some (ElementNode tag attrs m ks)" and off: "off \<le> length ks"
      using x by simp_all
    note I = insert_image_in_element[OF sel ine d at off, of w]
    have "textContent (map_kids p (\<lambda>ks. take off ks @ [w, ZWSP, SPACE] @ drop off ks) r1)
        = text_before r1 p off @ textContents [w, ZWSP, SPACE] @ text_after r1 p off"
      by (rule map_kids_text[OF at off])
    then have T: "textContent (map_kids p (\<lambda>ks. take off ks @ [w, ZWSP, SPACE] @ drop off ks) r1)
        = text_before (element ed) ps (startOffset rg) @ textContent w @ [0x200B, 0x0020]
           @ text_after (element ed) pe (endOffset rg)"
      by (simp only: tb sent append_assoc)
    show "((\<exists>tag attrs m ks.
         node_at r1 p = Some (ElementNode tag attrs m ks) \<and> off \<le> length ks \<and>
         insert_image w ed =
           Inr (ed\<lparr>element := map_kids p (\<lambda>ks. take off ks @ [w, ZWSP, SPACE] @ drop off ks) r1,
                   selection := Some \<lparr>startContainer = Within p, startOffset = off + 3,
                                      endContainer = Within p, endOffset = off + 3\<rparr>\<rparr>)) \<or>
      (\<exists>t q i.
         node_at r1 p = Some (TextNode t) \<and> p = q @ [i] \<and> off \<le> length t \<and>
         insert_image w ed =
           Inr (ed\<lparr>element :=
                     map_kids q
                       (\<lambda>ks. take i ks @ [TextNode (take off t), w, ZWSP, SPACE, TextNode (drop off t)]
                               @ drop (Suc i) ks) r1,
                   selection := Some \<lparr>startContainer = Within q, startOffset = i + 4,
                                      endContainer = Within q, endOffset = i + 4\<rparr>\<rparr>))) \<and>
      (\<exists>ed'. insert_image w ed = Inr ed' \<and>
       textContent (element ed') =
         text_before (element ed) ps (startOffset rg) @ textContent w @ [0x200B, 0x0020]
           @ text_after (element ed) pe (endOffset rg))"
      using I at off T by auto
  next
    case (TextNode t)
    then have at: "node_at r1 p = Some (TextNode t)" and off: "off \<le> length t"
      using x by simp_all
    obtain kids' where "r1 = ElementNode etag eattrs em kids'"
      using deleteContents_root[of etag eattrs em ekids rg] d elem by auto
    then have "p \<noteq> []" using at by auto
    then obtain q i where p: "p = q @ [i]" by (metis rev_exhaust)
    note I = insert_image_in_text[OF sel ine d[unfolded p] at[unfolded p], of w]
    have "textContent (map_kids q (\<lambda>ks. take i ks @ [TextNode (take off t)] @ [w, ZWSP, SPACE]
                                   @ [TextNode (drop off t)] @ drop (Suc i) ks) r1)
        = text_before r1 (q @ [i]) off @ textContents [w, ZWSP, SPACE] @ text_after r1 (q @ [i]) off"
      by (rule map_kids_text_split[OF at[unfolded p]])
    then have T: "textContent (map_kids q
          (\<lambda>ks. take i ks @ [TextNode (take off t), w, ZWSP, SPACE, TextNode (drop off t)]
                  @ drop (Suc i) ks) r1)
        = text_before (element ed) ps (startOffset rg) @ textContent w @ [0x200B, 0x0020]
           @ text_after (element ed) pe (endOffset rg)"
      using tb sent unfolding p by simp
    show "((\<exists>tag attrs m ks.
         node_at r1 p = Some (ElementNode tag attrs m ks) \<and> off \<le> length ks \<and>
         insert_image w ed =
           Inr (ed\<lparr>element := map_kids p (\<lambda>ks. take off ks @ [w, ZWSP, SPACE] @ drop off ks) r1,
                   selection := Some \<lparr>startContainer = Within p, startOffset = off + 3,
                                      endContainer = Within p, endOffset = off + 3\<rparr>\<rparr>)) \<or>
      (\<exists>t q i.
         node_at r1 p = Some (TextNode t) \<and> p = q @ [i] \<and> off \<le> length t \<and>
         insert_image w ed =
           Inr (ed\<lparr>element :=
                     map_kids q
                       (\<lambda>ks. take i ks @ [TextNode (take off t), w, ZWSP, SPACE, TextNode (drop off t)]
                               @ drop (Suc i) ks) r1,
                   selection := Some \<lparr>startContainer = Within q, startOffset = i + 4,
                                      endContainer = Within q, endOffset = i + 4\<rparr>\<rparr>))) \<and>
      (\<exists>ed'. insert_image w ed = Inr ed' \<and>
       textContent (element ed') =
         text_before (element ed) ps (startOffset rg) @ textContent w @ [0x200B, 0x0020]
           @ text_after (element ed) pe (endOffset rg))"
      using I at off p T by auto
  next
    case OtherNode
    then show "((\<exists>tag attrs m ks.
         node_at r1 p = Some (ElementNode tag attrs m ks) \<and> off \<le> length ks \<and>
         insert_image w ed =
           Inr (ed\<lparr>element := map_kids p (\<lambda>ks. take off ks @ [w, ZWSP, SPACE] @ drop off ks) r1,
                   selection := Some \<lparr>startContainer = Within p, startOffset = off + 3,
                                      endContainer = Within p, endOffset = off + 3\<rparr>\<rparr>)) \<or>
      (\<exists>t q i.
         node_at r1 p = Some (TextNode t) \<and> p = q @ [i] \<and> off \<le> length t \<and>
         insert_image w ed =
           Inr (ed\<lparr>element :=
                     map_kids q
                       (\<lambda>ks. take i ks @ [TextNode (take off t), w, ZWSP, SPACE, TextNode (drop off t)]
                               @ drop (Suc i) ks) r1,
                   selection := Some \<lparr>startContainer = Within q, startOffset = i + 4,
                                      endContainer = Within q, endOffset = i + 4\<rparr>\<rparr>))) \<and>
      (\<exists>ed'. insert_image w ed = Inr ed' \<and>
       textContent (element ed') =
         text_before (element ed) ps (startOffset rg) @ textContent w @ [0x200B, 0x0020]
           @ text_after (element ed) pe (endOffset rg))"
      using x by simp
  qed
  have C: "insert_image w ed =
            Inr (ed\<lparr>element :=
                      map_kids ps
                        (\<lambda>ks. take (startOffset rg) ks @ [w, ZWSP, SPACE] @ drop (endOffset rg) ks)
                        (element ed),
                    selection := Some \<lparr>startContainer = Within ps, startOffset = startOffset rg + 3,
                                       endContainer = Within ps, endOffset = startOffset rg + 3\<rparr>\<rparr>)"
    if same: "pe = ps" and at: "node_at (element ed) ps = Some (ElementNode tag attrs m ks)"
    for tag attrs m ks
  proof -
    let ?so = "startOffset rg" and ?eo = "endOffset rg"
    have b: "?so \<le> length ks" "?eo \<le> length ks"
      using valid start finish same at by (simp_all add: valid_range_def valid_boundary_def)
    have o: "?so \<le> ?eo"
      using valid start finish same by (simp add: valid_range_def not_less)
    let ?r1 = "map_kids ps (\<lambda>ks. take ?so ks @ drop ?eo ks) (element ed)"
    have dd: "deleteContents (element ed) rg =
        (?r1, \<lparr>startContainer = Within ps, startOffset = ?so,
               endContainer = Within ps, endOffset = ?so\<rparr>)"
      by (rule deleteContents_same_element[OF start finish[unfolded same] at o b(2)])
    have at1: "node_at ?r1 ps = Some (ElementNode tag attrs m (take ?so ks @ drop ?eo ks))"
      by (rule node_at_map_kids[OF at])
    have l1: "?so \<le> length (take ?so ks @ drop ?eo ks)" using b by simp
    note I = insert_image_in_element[OF sel ine dd at1 l1, of w]
    have "map_kids ps (\<lambda>ks. take ?so ks @ [w, ZWSP, SPACE] @ drop ?so ks) ?r1
        = map_kids ps (\<lambda>ks. take ?so (take ?so ks @ drop ?eo ks) @ [w, ZWSP, SPACE]
                             @ drop ?so (take ?so ks @ drop ?eo ks)) (element ed)"
      by (simp only: map_kids_twice)
    also have "\<dots> = map_kids ps (\<lambda>ks. take ?so ks @ [w, ZWSP, SPACE] @ drop ?eo ks) (element ed)"
      by (rule map_kids_cong[OF at]) (use b in simp)
    finally show ?thesis using I by simp
  qed
  have D: "insert_image w ed =
            Inr (ed\<lparr>element :=
                      map_kids q
                        (\<lambda>ks. take i ks @ [TextNode (take (startOffset rg) t), w, ZWSP, SPACE,
                                            TextNode (drop (endOffset rg) t)]
                                @ drop (Suc i) ks)
                        (element ed),
                    selection := Some \<lparr>startContainer = Within q, startOffset = i + 4,
                                       endContainer = Within q, endOffset = i + 4\<rparr>\<rparr>)"
    if same: "pe = ps" and at: "node_at (element ed) ps = Some (TextNode t)" and ps: "ps = q @ [i]"
    for t q i
  proof -
    let ?so = "startOffset rg" and ?eo = "endOffset rg"
    have b: "?so \<le> length t" "?eo \<le> length t"
      using valid start finish same at by (simp_all add: valid_range_def valid_boundary_def)
    have o: "?so \<le> ?eo"
      using valid start finish same by (simp add: valid_range_def not_less)
    from node_at_snoc[OF at[unfolded ps]] obtain tag attrs m ks where
      q: "node_at (element ed) q = Some (ElementNode tag attrs m ks)" and i: "i < length ks"
      by blast
    let ?t' = "take ?so t @ drop ?eo t"
    let ?r1 = "map_kids q (\<lambda>ks. ks[i := TextNode ?t']) (element ed)"
    have dd: "deleteContents (element ed) rg =
        (?r1, \<lparr>startContainer = Within (q @ [i]), startOffset = ?so,
               endContainer = Within (q @ [i]), endOffset = ?so\<rparr>)"
      by (rule deleteContents_same_text[OF start[unfolded ps] finish[unfolded same ps] at[unfolded ps]])
    have q1: "node_at ?r1 q = Some (ElementNode tag attrs m (ks[i := TextNode ?t']))"
      by (rule node_at_map_kids[OF q])
    have at1: "node_at ?r1 (q @ [i]) = Some (TextNode ?t')"
      using node_at_child[OF q1, of i] i by simp
    note I = insert_image_in_text[OF sel ine dd at1, of w]
    have tk: "take ?so ?t' = take ?so t" "drop ?so ?t' = drop ?eo t" using b o by simp_all
    have "map_kids q (\<lambda>ks. take i ks @ [TextNode (take ?so ?t'), w, ZWSP, SPACE, TextNode (drop ?so ?t')]
                               @ drop (Suc i) ks) ?r1
        = map_kids q (\<lambda>ks. take i (ks[i := TextNode ?t'])
                             @ [TextNode (take ?so ?t'), w, ZWSP, SPACE, TextNode (drop ?so ?t')]
                             @ drop (Suc i) (ks[i := TextNode ?t'])) (element ed)"
      by (simp only: map_kids_twice)
    also have "\<dots> = map_kids q
        (\<lambda>ks. take i ks @ [TextNode (take ?so t), w, ZWSP, SPACE, TextNode (drop ?eo t)]
                @ drop (Suc i) ks) (element ed)"
      by (rule map_kids_cong[OF q]) (use b in \<open>simp add: min_absorb2\<close>)
    finally show ?thesis using I by simp
  qed
  show ?thesis
    apply (intro conjI)
    subgoal using d A by blast
    subgoal by (rule B)
    subgoal using C D by blast
    done
qed

theorem paste_inserts_widget_and_sentinels_witness:
  "valid_range
     (ElementNode ''DIV'' [] no_metrics [TextNode (js ''hello'')])
     \<lparr>startContainer = Within [0], startOffset = 1, endContainer = Within [0], endOffset = 4\<rparr> \<and>
   insert_image (image_widget (js ''1a'') (js ''data:image/png;base64,aGk='') (js ''p'') no_metrics)
     \<lparr>element = ElementNode ''DIV'' [] no_metrics [TextNode (js ''hello'')],
      selection = Some \<lparr>startContainer = Within [0], startOffset = 1,
                         endContainer = Within [0], endOffset = 4\<rparr>,
      focused = True\<rparr>
   = Inr \<lparr>element = ElementNode ''DIV'' [] no_metrics
            [TextNode (js ''h''),
             image_widget (js ''1a'') (js ''data:image/png;base64,aGk='') (js ''p'') no_metrics,
             TextNode [0x200B], TextNode [0x0020], TextNode (js ''o'')],
          selection = Some \<lparr>startContainer = Within [], startOffset = 4,
                             endContainer = Within [], endOffset = 4\<rparr>,
          focused = True\<rparr> \<and>
   valid_range
     (ElementNode ''DIV'' [] no_metrics
        [TextNode (js ''a''), ElementNode ''BR'' [] no_metrics [], TextNode (js ''b'')])
     \<lparr>startContainer = Within [], startOffset = 1, endContainer = Within [], endOffset = 2\<rparr> \<and>
   insert_image (image_widget (js ''1a'') (js ''data:image/png;base64,aGk='') (js ''p'') no_metrics)
     \<lparr>element = ElementNode ''DIV'' [] no_metrics
        [TextNode (js ''a''), ElementNode ''BR'' [] no_metrics [], TextNode (js ''b'')],
      selection = Some \<lparr>startContainer = Within [], startOffset = 1,
                         endContainer = Within [], endOffset = 2\<rparr>,
      focused = True\<rparr>
   = Inr \<lparr>element = ElementNode ''DIV'' [] no_metrics
            [TextNode (js ''a''),
             image_widget (js ''1a'') (js ''data:image/png;base64,aGk='') (js ''p'') no_metrics,
             TextNode [0x200B], TextNode [0x0020], TextNode (js ''b'')],
          selection = Some \<lparr>startContainer = Within [], startOffset = 4,
                             endContainer = Within [], endOffset = 4\<rparr>,
          focused = True\<rparr> \<and>
   valid_range
     (ElementNode ''DIV'' [] no_metrics
        [TextNode (js ''hello''), ElementNode ''BR'' [] no_metrics [], TextNode (js ''world'')])
     \<lparr>startContainer = Within [0], startOffset = 2, endContainer = Within [2], endOffset = 3\<rparr> \<and>
   insert_image (image_widget (js ''1a'') (js ''data:image/png;base64,aGk='') (js ''p'') no_metrics)
     \<lparr>element = ElementNode ''DIV'' [] no_metrics
        [TextNode (js ''hello''), ElementNode ''BR'' [] no_metrics [], TextNode (js ''world'')],
      selection = Some \<lparr>startContainer = Within [0], startOffset = 2,
                         endContainer = Within [2], endOffset = 3\<rparr>,
      focused = True\<rparr>
   = Inr \<lparr>element = ElementNode ''DIV'' [] no_metrics
            [TextNode (js ''he''),
             image_widget (js ''1a'') (js ''data:image/png;base64,aGk='') (js ''p'') no_metrics,
             TextNode [0x200B], TextNode [0x0020], TextNode (js ''ld'')],
          selection = Some \<lparr>startContainer = Within [], startOffset = 4,
                             endContainer = Within [], endOffset = 4\<rparr>,
          focused = True\<rparr> \<and>
   (\<exists>ed'. insert_image (image_widget (js ''1a'') (js ''data:image/png;base64,aGk='') (js ''p'') no_metrics)
     \<lparr>element = ElementNode ''DIV'' [] no_metrics
        [TextNode (js ''hello''), ElementNode ''BR'' [] no_metrics [], TextNode (js ''world'')],
      selection = Some \<lparr>startContainer = Within [0], startOffset = 2,
                         endContainer = Within [2], endOffset = 3\<rparr>,
      focused = True\<rparr> = Inr ed' \<and>
     textContent (element ed') = js ''he'' @ [0x00D7] @ [0x200B, 0x0020] @ js ''ld'')"
proof -
  let ?W = "image_widget (js ''1a'') (js ''data:image/png;base64,aGk='') (js ''p'') no_metrics"
  let ?c = "\<lambda>q k. \<lparr>startContainer = Within q, startOffset = k,
                    endContainer = Within q, endOffset = k\<rparr>"
  let ?k1 = "[TextNode (js ''hello'')]"
  let ?g1 = "\<lparr>startContainer = Within [0], startOffset = 1, endContainer = Within [0], endOffset = 4\<rparr>"
  let ?E1 = "\<lparr>element = ElementNode ''DIV'' [] no_metrics ?k1, selection = Some ?g1, focused = True\<rparr>"
  have v1: "valid_range (element ?E1) ?g1"
    by (simp add: valid_range_def valid_boundary_def js_def)
  note T1 = paste_inserts_widget_and_sentinels[of ?E1 ?g1 "[0]" "[0]" "''DIV''" "[]" no_metrics ?k1 ?W]
  have "insert_image ?W ?E1 =
      Inr (?E1\<lparr>element := map_kids []
                 (\<lambda>ks. take 0 ks @ [TextNode (take (startOffset ?g1) (js ''hello'')), ?W, ZWSP, SPACE,
                                    TextNode (drop (endOffset ?g1) (js ''hello''))] @ drop (Suc 0) ks)
                 (element ?E1),
               selection := Some (?c [] (0 + 4))\<rparr>)"
    using T1 v1 by simp
  then have r1: "insert_image ?W ?E1 =
      Inr \<lparr>element = ElementNode ''DIV'' [] no_metrics
            [TextNode (js ''h''), ?W, TextNode [0x200B], TextNode [0x0020], TextNode (js ''o'')],
           selection = Some (?c [] 4), focused = True\<rparr>"
    by (simp add: ZWSP_def SPACE_def js_def)
  let ?k2 = "[TextNode (js ''a''), ElementNode ''BR'' [] no_metrics [], TextNode (js ''b'')]"
  let ?g2 = "\<lparr>startContainer = Within [], startOffset = 1, endContainer = Within [], endOffset = 2\<rparr>"
  let ?E2 = "\<lparr>element = ElementNode ''DIV'' [] no_metrics ?k2, selection = Some ?g2, focused = True\<rparr>"
  have v2: "valid_range (element ?E2) ?g2"
    by (simp add: valid_range_def valid_boundary_def)
  note T2 = paste_inserts_widget_and_sentinels[of ?E2 ?g2 "[]" "[]" "''DIV''" "[]" no_metrics ?k2 ?W]
  have "insert_image ?W ?E2 =
      Inr (?E2\<lparr>element := map_kids []
                 (\<lambda>ks. take (startOffset ?g2) ks @ [?W, ZWSP, SPACE] @ drop (endOffset ?g2) ks)
                 (element ?E2),
               selection := Some (?c [] (startOffset ?g2 + 3))\<rparr>)"
    using T2 v2 by simp
  then have r2: "insert_image ?W ?E2 =
      Inr \<lparr>element = ElementNode ''DIV'' [] no_metrics
            [TextNode (js ''a''), ?W, TextNode [0x200B], TextNode [0x0020], TextNode (js ''b'')],
           selection = Some (?c [] 4), focused = True\<rparr>"
    by (simp add: ZWSP_def SPACE_def)
  let ?kids = "[TextNode (js ''hello''), ElementNode ''BR'' [] no_metrics [], TextNode (js ''world'')]"
  let ?rg = "\<lparr>startContainer = Within [0], startOffset = 2, endContainer = Within [2], endOffset = 3\<rparr>"
  let ?E = "\<lparr>element = ElementNode ''DIV'' [] no_metrics ?kids, selection = Some ?rg, focused = True\<rparr>"
  let ?R1 = "ElementNode ''DIV'' [] no_metrics [TextNode (js ''he''), TextNode (js ''ld'')]"
  have v: "valid_range (element ?E) ?rg"
    by (simp add: valid_range_def valid_boundary_def js_def)
  have k: "node_at (element ?E) [0] \<noteq> Some OtherNode" by simp
  have d: "deleteContents (element ?E) ?rg = (?R1, ?c [] 1)"
    by (simp add: deleteContents_def collapsed_def js_def)
  note T3 = paste_inserts_widget_and_sentinels[of ?E ?rg "[0]" "[2]" "''DIV''" "[]" no_metrics ?kids ?W]
  from T3 v k obtain r1 p off where A: "deleteContents (element ?E) ?rg = (r1, ?c p off)"
    and B: "(\<exists>tag attrs m ks.
         node_at r1 p = Some (ElementNode tag attrs m ks) \<and> off \<le> length ks \<and>
         insert_image ?W ?E =
           Inr (?E\<lparr>element := map_kids p (\<lambda>ks. take off ks @ [?W, ZWSP, SPACE] @ drop off ks) r1,
                   selection := Some (?c p (off + 3))\<rparr>)) \<or>
      (\<exists>t q i.
         node_at r1 p = Some (TextNode t) \<and> p = q @ [i] \<and> off \<le> length t \<and>
         insert_image ?W ?E =
           Inr (?E\<lparr>element :=
                     map_kids q
                       (\<lambda>ks. take i ks @ [TextNode (take off t), ?W, ZWSP, SPACE, TextNode (drop off t)]
                               @ drop (Suc i) ks) r1,
                   selection := Some (?c q (i + 4))\<rparr>))"
    by auto
  from A d have e: "r1 = ?R1" "p = []" "off = 1" by simp_all
  from B have "insert_image ?W ?E =
      Inr (?E\<lparr>element := map_kids [] (\<lambda>ks. take 1 ks @ [?W, ZWSP, SPACE] @ drop 1 ks) ?R1,
              selection := Some (?c [] (1 + 3))\<rparr>)"
    unfolding e by auto
  then have r3: "insert_image ?W ?E =
      Inr \<lparr>element = ElementNode ''DIV'' [] no_metrics
            [TextNode (js ''he''), ?W, TextNode [0x200B], TextNode [0x0020], TextNode (js ''ld'')],
           selection = Some (?c [] 4), focused = True\<rparr>"
    by (simp add: ZWSP_def SPACE_def)
  from T3 v k obtain ed' where "insert_image ?W ?E = Inr ed'"
    and "textContent (element ed') =
         text_before (element ?E) [0] (startOffset ?rg) @ textContent ?W @ [0x200B, 0x0020]
           @ text_after (element ?E) [2] (endOffset ?rg)"
    by auto
  then have r4: "\<exists>ed'. insert_image ?W ?E = Inr ed' \<and>
     textContent (element ed') = js ''he'' @ [0x00D7] @ [0x200B, 0x0020] @ js ''ld''"
    by (simp add: image_widget_def js_def)
  show ?thesis
    apply (intro conjI)
    apply (use v1 in simp)
    apply (rule r1)
    apply (use v2 in simp)
    apply (rule r2)
    apply (use v in simp)
    apply (rule r3)
    apply (rule r4)
    done
qed


section \<open>The stored value\<close>

lemma key_neq [simp]:
  "js ''htmlContent'' \<noteq> js ''timestamp''" "js ''timestamp'' \<noteq> js ''htmlContent''"
  by (simp_all add: js_def)

lemma map_fst_set_property:
  "k \<in> set (map fst ps) \<Longrightarrow> map fst (set_property k v ps) = map fst ps"
  by (simp add: set_property_def case_prod_unfold comp_def)

lemma map_of_replace:
  "map_of (map (\<lambda>(k', v'). (k', if k' = k then v else v')) ps) k' =
     (if k' = k then (case map_of ps k of None \<Rightarrow> None | Some x \<Rightarrow> Some v) else map_of ps k')"
  by (induction ps) auto

lemma map_of_set_property:
  "map_of (set_property k v ps) k' = (if k' = k then Some v else map_of ps k')"
proof (cases "k \<in> set (map fst ps)")
  case True
  then obtain x where "map_of ps k = Some x"
    by (metis map_of_eq_None_iff not_Some_eq set_map)
  then show ?thesis using True by (simp add: set_property_def map_of_replace)
next
  case False
  then have "map_of ps k = None" by (simp add: map_of_eq_None_iff)
  then show ?thesis using False by (auto simp: set_property_def map_add_def split: option.splits)
qed

lemma is_draft_object [simp]: "is_draft (draft_object c)"
  by (auto simp: is_draft_def draft_object_def)

lemma is_draft_spread: "is_draft prev \<Longrightarrow> is_draft (spread_update prev h t)"
proof -
  assume d: "is_draft prev"
  then obtain ps where p: "prev = JObject ps" by (cases prev) (simp_all add: is_draft_def)
  have k: "distinct (map fst ps)" "set (map fst ps) = {js ''htmlContent'', js ''timestamp''}"
    using d p by (simp_all add: is_draft_def)
  let ?q = "set_property (js ''htmlContent'') (JString h) ps"
  have q: "map fst ?q = map fst ps" using k(2) by (intro map_fst_set_property) simp
  have r: "map fst (set_property (js ''timestamp'') (JNumber (int t)) ?q) = map fst ps"
    using k(2) q by (simp add: map_fst_set_property)
  show ?thesis
    using k r by (simp add: spread_update_def own_properties_def p is_draft_def map_of_set_property)
qed

lemma closed_is_draft: "closed_under_updates is_draft"
  by (simp add: closed_under_updates_def is_draft_spread)

lemma closed_True: "closed_under_updates (\<lambda>v. True)"
  by (simp add: closed_under_updates_def)

subsection \<open>Every event keeps the invariants\<close>

lemma stable_same:
  assumes "holds_throughout P st"
    and "\<forall>tm \<in> set (timers st'). is_autosave tm \<longrightarrow> tm \<in> set (timers st)"
    and "autosave_timer st' = autosave_timer st" and "content st' = content st"
    and "setItem_calls st' = setItem_calls st"
  shows "holds_throughout P st'"
  using assms by (auto simp: holds_throughout_def autosave_tracked_def autosave_current_def written_def)

lemma stable_setTimeout:
  assumes "holds_throughout P st" and "\<And>c. t \<noteq> Autosave c"
  shows "holds_throughout P (snd (setTimeout t d st))"
  using assms(2)
  by (intro stable_same[OF assms(1)]) (auto simp: setTimeout_def is_autosave_def split: task.splits)

lemma stable_setContent:
  assumes "holds_throughout P st" and "P c"
  shows "holds_throughout P (setContent c st)"
proof -
  have t: "autosave_tracked st" using assms(1) by (simp add: holds_throughout_def)
  show ?thesis
    using setContent_invariants[OF t, of c] assms
    by (simp add: holds_throughout_def written_def)
qed

lemma stable_handleContentChange:
  assumes "holds_throughout P st" and "closed_under_updates P"
  shows "holds_throughout P (handleContentChange innerHTML b st)"
proof (cases "editorRef st")
  case None
  then show ?thesis using assms by (simp add: handleContentChange_def)
next
  case (Some ed)
  show ?thesis
  proof (cases b)
    case True
    then show ?thesis using assms by (simp add: handleContentChange_composing)
  next
    case False
    let ?c = "spread_update (content st) (innerHTML (element ed)) (clock st)"
    have "P ?c" using assms by (simp add: closed_under_updates_def holds_throughout_def)
    then have "holds_throughout P (setContent ?c st)" using assms(1) by (rule stable_setContent[rotated])
    then have "holds_throughout P (snd (setTimeout (RestoreCursor (saveCursorPosition (editorRef st))) 0
        (setContent ?c st)))"
      by (rule stable_setTimeout) simp
    then show ?thesis using Some False by (simp add: handleContentChange_def Let_def)
  qed
qed

lemma stable_showNotification:
  assumes "holds_throughout P st"
  shows "holds_throughout P (showNotification msg ty st)"
proof -
  have "holds_throughout P (st\<lparr>notification := \<lparr>message = msg, ntype = ty, visible = True\<rparr>\<rparr>)"
    by (rule stable_same[OF assms]) simp_all
  then show ?thesis unfolding showNotification_def by (rule stable_setTimeout) simp
qed

lemma stable_handleClear:
  assumes "holds_throughout P st" and "closed_under_updates P"
  shows "holds_throughout P (handleClear st)"
proof -
  let ?c = "draft_object \<lparr>htmlContent = [], timestamp = clock st\<rparr>"
  let ?s1 = "setContent ?c st"
  have "P ?c" using assms(2) by (simp add: closed_under_updates_def)
  then have s1: "holds_throughout P ?s1" using assms(1) by (rule stable_setContent[rotated])
  let ?s3 = "?s1\<lparr>editorRef := map_option (set_innerHTML []) (editorRef ?s1),
                showClearConfirm := False\<rparr>"
  have s3: "holds_throughout P ?s3" by (rule stable_same[OF s1]) simp_all
  have "handleClear st = showNotification msg_cleared Success ?s3"
    by (simp add: handleClear_def Let_def)
  then show ?thesis using stable_showNotification[OF s3] by simp
qed

lemma stable_reader_onload:
  assumes "holds_throughout P st" and "closed_under_updates P"
    and "reader_onload innerHTML b w st = Inr st'"
  shows "holds_throughout P st'"
proof (cases "st' = st")
  case True
  then show ?thesis using assms(1) by simp
next
  case False
  then obtain ed' where
    "st' = showNotification msg_image_added Success
             (handleContentChange innerHTML b
                (snd (setTimeout FocusEditor 10 (st\<lparr>editorRef := Some ed'\<rparr>))))"
    using assms(3)
    by (auto simp: reader_onload_def Let_def split: option.splits sum.splits if_splits)
  moreover have "holds_throughout P (st\<lparr>editorRef := Some ed'\<rparr>)"
    by (rule stable_same[OF assms(1)]) simp_all
  then have "holds_throughout P (snd (setTimeout FocusEditor 10 (st\<lparr>editorRef := Some ed'\<rparr>)))"
    by (rule stable_setTimeout) simp
  ultimately show ?thesis
    using stable_showNotification stable_handleContentChange[OF _ assms(2)] by simp
qed

lemma stable_fire:
  assumes "holds_throughout P st" and "closed_under_updates P" and "tm \<in> set (timers st)"
  shows "holds_throughout P (fire innerHTML tm st)"
proof -
  let ?st1 = "st\<lparr>timers := remove1 tm (timers st), clock := max (clock st) (due tm)\<rparr>"
  have s1: "holds_throughout P ?st1"
    using set_remove1_subset[of tm "timers st"] by (intro stable_same[OF assms(1)]) auto
  show ?thesis
  proof (cases "task tm")
    case (Autosave c)
    have "is_autosave tm" using Autosave by (simp add: is_autosave_def)
    then have c: "c = content st"
      using assms(1,3) Autosave by (auto simp: holds_throughout_def autosave_current_def)
    have f: "fire innerHTML tm st =
        ?st1\<lparr>setItem_calls := setItem_calls ?st1 @ [(STORAGE_KEY, JSON_stringify c)]\<rparr>"
      using Autosave by (simp add: fire_def run_task_def)
    have "P c" using c assms(1) by (simp add: holds_throughout_def)
    then show ?thesis
      using s1 unfolding f
      by (auto simp: holds_throughout_def autosave_tracked_def autosave_current_def written_def
          STORAGE_KEY_def JSON_stringify_def)
  next
    case (RestoreCursor p)
    then have "fire innerHTML tm st = ?st1 \<or> (\<exists>e. fire innerHTML tm st = ?st1\<lparr>editorRef := e\<rparr>)"
      by (auto simp: fire_def run_task_def Let_def split: sum.splits)
    then show ?thesis
    proof
      assume "fire innerHTML tm st = ?st1"
      then show ?thesis using s1 by simp
    next
      assume "\<exists>e. fire innerHTML tm st = ?st1\<lparr>editorRef := e\<rparr>"
      then obtain e where e: "fire innerHTML tm st = ?st1\<lparr>editorRef := e\<rparr>" by blast
      show ?thesis unfolding e by (rule stable_same[OF s1]) simp_all
    qed
  next
    case UpdateContent
    show ?thesis
    proof (cases "editorRef st")
      case None
      then have "fire innerHTML tm st = ?st1" using UpdateContent by (simp add: fire_def run_task_def)
      then show ?thesis using s1 by simp
    next
      case (Some ed)
      let ?c = "spread_update (content ?st1) (innerHTML (element ed)) (clock ?st1)"
      have f: "fire innerHTML tm st = setContent ?c ?st1"
        using UpdateContent Some by (simp add: fire_def run_task_def)
      have "P ?c" using s1 assms(2) by (simp add: closed_under_updates_def holds_throughout_def)
      then show ?thesis unfolding f using s1 by (rule stable_setContent[rotated])
    qed
  next
    case HideNotification
    have f: "fire innerHTML tm st = ?st1\<lparr>notification := (notification ?st1)\<lparr>visible := False\<rparr>\<rparr>"
      using HideNotification by (simp add: fire_def run_task_def)
    show ?thesis unfolding f by (rule stable_same[OF s1]) simp_all
  next
    case FocusEditor
    have f: "fire innerHTML tm st =
        ?st1\<lparr>editorRef := map_option (\<lambda>ed. ed\<lparr>focused := True\<rparr>) (editorRef ?st1)\<rparr>"
      using FocusEditor by (simp add: fire_def run_task_def)
    show ?thesis unfolding f by (rule stable_same[OF s1]) simp_all
  qed
qed

lemma stable_advance_to:
  "holds_throughout P st \<Longrightarrow> closed_under_updates P \<Longrightarrow> holds_throughout P (advance_to innerHTML t st)"
proof (induction innerHTML t st rule: advance_to.induct)
  case (1 innerHTML t st)
  show ?case
  proof (cases "earliest (filter (\<lambda>tm. due tm \<le> t) (timers st))")
    case None
    then have "advance_to innerHTML t st = st\<lparr>clock := max (clock st) t\<rparr>" by simp
    moreover have "holds_throughout P (st\<lparr>clock := max (clock st) t\<rparr>)"
      by (rule stable_same[OF "1.prems"(1)]) simp_all
    ultimately show ?thesis by simp
  next
    case (Some tm)
    then have mem: "tm \<in> set (timers st)" using earliest_filter by blast
    have "advance_to innerHTML t st = advance_to innerHTML t (fire innerHTML tm st)"
      using Some by simp
    then show ?thesis
      using "1.IH"[OF Some stable_fire[OF "1.prems"(1,2) mem] "1.prems"(2)] by simp
  qed
qed

lemma stable_step:
  assumes "holds_throughout P st" and "closed_under_updates P"
  shows "holds_throughout P (step innerHTML e st)"
proof (cases e)
  case (Edit ed)
  show ?thesis
  proof (cases "editorRef st")
    case None
    then show ?thesis using Edit assms(1) by simp
  next
    case (Some ed0)
    have "holds_throughout P (st\<lparr>editorRef := Some ed\<rparr>)" by (rule stable_same[OF assms(1)]) simp_all
    then show ?thesis using Edit Some by simp
  qed
next
  case Input
  then show ?thesis using stable_handleContentChange[OF assms] by (simp add: onInput_def)
next
  case CompositionStart
  have "holds_throughout P (st\<lparr>isComposing := True\<rparr>)" by (rule stable_same[OF assms(1)]) simp_all
  then show ?thesis using CompositionStart by (simp add: handleCompositionStart_def)
next
  case CompositionEnd
  have "holds_throughout P (st\<lparr>isComposing := False\<rparr>)" by (rule stable_same[OF assms(1)]) simp_all
  then have "holds_throughout P (snd (setTimeout UpdateContent 0 (st\<lparr>isComposing := False\<rparr>)))"
    by (rule stable_setTimeout) simp
  then show ?thesis using CompositionEnd by (simp add: handleCompositionEnd_def)
next
  case (Kept_handleContentChange b)
  then show ?thesis using stable_handleContentChange[OF assms] by simp
next
  case (ImageLoaded b w)
  show ?thesis
  proof (cases "reader_onload innerHTML b w st")
    case (Inl ex)
    then show ?thesis using ImageLoaded assms(1) by simp
  next
    case (Inr st')
    then show ?thesis using ImageLoaded stable_reader_onload[OF assms Inr] by simp
  qed
next
  case (ShowClearConfirm b)
  have "holds_throughout P (st\<lparr>showClearConfirm := b\<rparr>)" by (rule stable_same[OF assms(1)]) simp_all
  then show ?thesis using ShowClearConfirm by simp
next
  case Clear
  then show ?thesis using stable_handleClear[OF assms] by simp
next
  case (Notify msg ty)
  then show ?thesis using stable_showNotification[OF assms(1)] by simp
next
  case (Wait d)
  then show ?thesis using stable_advance_to[OF assms] by simp
qed

lemma stable_run_events:
  "holds_throughout P st \<Longrightarrow> closed_under_updates P \<Longrightarrow> holds_throughout P (run_events innerHTML evs st)"
  by (induction evs arbitrary: st) (simp_all add: stable_step)

lemma stable_initial_app:
  "closed_under_updates P \<Longrightarrow> holds_throughout P (initial_app now ed)"
  using initial_app_invariants(1,2)[of now ed]
  by (simp add: holds_throughout_def written_def closed_under_updates_def initial_app_def
      autosave_effect_def setTimeout_def)

lemma stable_mount:
  assumes "closed_under_updates P" and "mount parse saved now ed = Some st0"
    and "\<And>v. saved = Some (JSON_text v) \<Longrightarrow> P v"
  shows "holds_throughout P st0"
proof -
  note i = stable_initial_app[OF assms(1), of now ed]
  have e: "holds_throughout P ((initial_app now ed)\<lparr>editorRef := Some x\<rparr>)" for x
    by (rule stable_same[OF i]) simp_all
  show ?thesis
  proof (cases saved)
    case None
    then show ?thesis using assms(2) i by (simp add: mount_def)
  next
    case (Some item)
    show ?thesis
    proof (cases item)
      case (Other_text t)
      then show ?thesis using assms(2) i Some
        by (auto simp: mount_def JSON_parse_def Let_def split: if_splits)
    next
      case (JSON_text v)
      have P: "P v" using assms(3) Some JSON_text by simp
      have "st0 = setContent v (initial_app now ed) \<or>
            (\<exists>x. st0 = setContent v ((initial_app now ed)\<lparr>editorRef := Some x\<rparr>))"
        using assms(2) Some JSON_text
        by (auto simp: mount_def JSON_parse_def Let_def split: sum.splits option.splits if_splits)
      then show ?thesis using stable_setContent[OF i P] stable_setContent[OF e P] by auto
    qed
  qed
qed

subsection \<open>What is written\<close>

lemma step_does_not_write:
  "(\<forall>d. e \<noteq> Wait d) \<Longrightarrow> setItem_calls (step innerHTML e st) = setItem_calls st"
proof (cases e)
  case (ImageLoaded b w)
  show ?thesis
  proof (cases "reader_onload innerHTML b w st")
    case (Inl ex)
    then show ?thesis using ImageLoaded by simp
  next
    case (Inr st')
    then have "setItem_calls st' = setItem_calls st"
      by (auto simp: reader_onload_def Let_def showNotification_def setTimeout_def
          handlers_do_not_write(1) split: option.splits sum.splits if_splits)
    then show ?thesis using ImageLoaded Inr by simp
  qed
qed (auto simp: onInput_def handlers_do_not_write showNotification_def setTimeout_def
      split: option.splits)

lemma mount_cases:
  assumes "mount parse saved now ed = Some st0"
  shows "st0 = initial_app now ed \<or>
         (\<exists>v x. saved = Some (JSON_text v) \<and>
                st0 = setContent v ((initial_app now ed)\<lparr>editorRef := Some x\<rparr>))"
proof (cases saved)
  case None
  then show ?thesis using assms by (simp add: mount_def)
next
  case (Some item)
  show ?thesis
  proof (cases item)
    case (Other_text t)
    then show ?thesis using assms Some
      by (auto simp: mount_def JSON_parse_def Let_def split: if_splits)
  next
    case (JSON_text v)
    have e: "(initial_app now ed)\<lparr>editorRef := Some ed\<rparr> = initial_app now ed"
      by (simp add: initial_app_def autosave_effect_def setTimeout_def)
    have "st0 = setContent v (initial_app now ed) \<or>
          (\<exists>x. st0 = setContent v ((initial_app now ed)\<lparr>editorRef := Some x\<rparr>))"
      using assms Some JSON_text
      by (auto simp: mount_def JSON_parse_def Let_def split: sum.splits option.splits if_splits)
    then show ?thesis using Some JSON_text e by metis
  qed
qed

text \<open>After mounting, one autosave timer is pending; when nothing else happens for
  1000 ms it writes the state object of the mount.\<close>

lemma mount_first_write:
  assumes "mount parse saved now ed = Some st0"
  shows "setItem_calls (advance_to innerHTML (clock st0 + 1000) st0)
           = [(STORAGE_KEY, JSON_stringify (content st0))]"
proof -
  have init: "filter is_autosave (timers (initial_app now ed)) =
      [\<lparr>timer_id = 0, due = now + 1000, task = Autosave (content (initial_app now ed))\<rparr>]"
    "setItem_calls (initial_app now ed) = []" "clock (initial_app now ed) = now"
    by (simp_all add: initial_app_def autosave_effect_def setTimeout_def)
  from mount_cases[OF assms] show ?thesis
  proof
    assume s: "st0 = initial_app now ed"
    have "setItem_calls (advance_to innerHTML (now + 1000) (initial_app now ed))
        = setItem_calls (initial_app now ed) @ [(STORAGE_KEY, JSON_stringify (content (initial_app now ed)))]"
      by (rule advance_fires[OF initial_app_invariants(3) init(1)]) simp_all
    then show ?thesis using s init by simp
  next
    assume "\<exists>v x. saved = Some (JSON_text v) \<and>
                st0 = setContent v ((initial_app now ed)\<lparr>editorRef := Some x\<rparr>)"
    then obtain v x where s: "st0 = setContent v ((initial_app now ed)\<lparr>editorRef := Some x\<rparr>)"
      by blast
    let ?i = "(initial_app now ed)\<lparr>editorRef := Some x\<rparr>"
    have t: "autosave_tracked ?i" and n: "no_pending_update ?i"
      using initial_app_invariants(1,3)[of now ed]
      by (simp_all add: autosave_tracked_def no_pending_update_def)
    have f: "filter is_autosave (timers st0) =
        [\<lparr>timer_id = next_timer ?i, due = clock ?i + 1000, task = Autosave v\<rparr>]"
      unfolding s by (rule setContent_autosave_timers[OF t])
    have nu: "no_pending_update st0" unfolding s by (rule setContent_no_update[OF n])
    have c: "clock st0 = now" "setItem_calls st0 = []" "content st0 = v"
      unfolding s using init by simp_all
    have "setItem_calls (advance_to innerHTML (clock st0 + 1000) st0)
        = setItem_calls st0 @ [(STORAGE_KEY, JSON_stringify v)]"
      by (rule advance_fires[OF nu f]) (simp_all add: c init)
    then show ?thesis using c by simp
  qed
qed

lemma spread_update_draft:
  "spread_update (draft_object c) h t = draft_object \<lparr>htmlContent = h, timestamp = t\<rparr>"
  by (simp add: spread_update_def draft_object_def own_properties_def set_property_def)

lemma spread_update_reads:
  "get_htmlContent (spread_update prev h t) = Inr (Some (JString h))"
  "map_of (own_properties (spread_update prev h t)) (js ''timestamp'') = Some (JNumber (int t))"
  by (simp_all add: spread_update_def get_htmlContent_def own_properties_def map_of_set_property)

text \<open>
  C9 (as amended). Let the component be mounted with \<open>saved\<close> under the key and let
  any events follow. Every \<open>setItem\<close> call has the key \<open>draftNote_content\<close> and a JSON
  text. The autosave callback is the only writer: no handler and no other callback
  writes, and a pending autosave timer always holds the current state object, so what
  it writes when it fires is that object. When the item found at mount is absent, no
  JSON text, or an object with exactly the fields \<open>htmlContent\<close> (a string) and
  \<open>timestamp\<close> (a number), the state object and every value written are objects with
  exactly these two fields. A snapshot change sets \<open>htmlContent\<close> to the editor's
  markup and \<open>timestamp\<close> to the time of the change and keeps every other property.
  The value loaded at mount is not checked: whatever its shape, it is the state
  object, and it is written back as it is when nothing happens for 1000 ms.
\<close>

theorem stored_value_shape:
  assumes "mount parse saved now ed = Some st0"
  shows
    "written (\<lambda>v. True) (run_events innerHTML evs st0) \<and>
     (saved_is_draft saved \<longrightarrow>
        written is_draft (run_events innerHTML evs st0) \<and>
        is_draft (content (run_events innerHTML evs st0))) \<and>
     (\<forall>tm \<in> set (timers (run_events innerHTML evs st0)). is_autosave tm \<longrightarrow>
        setItem_calls (fire innerHTML tm (run_events innerHTML evs st0)) =
          setItem_calls (run_events innerHTML evs st0) @
            [(js ''draftNote_content'', JSON_text (content (run_events innerHTML evs st0)))]) \<and>
     (\<not> is_autosave tm' \<longrightarrow> setItem_calls (fire innerHTML tm' st) = setItem_calls st) \<and>
     ((\<forall>d. e \<noteq> Wait d) \<longrightarrow> setItem_calls (step innerHTML e st) = setItem_calls st) \<and>
     (editorRef st = Some ed' \<longrightarrow>
        content (handleContentChange innerHTML False st)
          = spread_update (content st) (innerHTML (element ed')) (clock st) \<and>
        get_htmlContent (content (handleContentChange innerHTML False st))
          = Inr (Some (JString (innerHTML (element ed')))) \<and>
        map_of (own_properties (content (handleContentChange innerHTML False st))) (js ''timestamp'')
          = Some (JNumber (int (clock st))) \<and>
        (content st = draft_object c \<longrightarrow>
           content (handleContentChange innerHTML False st)
             = draft_object \<lparr>htmlContent = innerHTML (element ed'), timestamp = clock st\<rparr>)) \<and>
     content st0 = (case saved of Some (JSON_text v) \<Rightarrow> v
                    | _ \<Rightarrow> draft_object \<lparr>htmlContent = [], timestamp = now\<rparr>) \<and>
     setItem_calls (run_events innerHTML [Wait 1000] st0)
       = [(js ''draftNote_content'', JSON_text (content st0))]"
proof -
  let ?S = "run_events innerHTML evs st0"
  have a: "holds_throughout (\<lambda>v. True) ?S"
    by (intro stable_run_events stable_mount[OF closed_True assms] closed_True) simp
  have b: "holds_throughout is_draft ?S" if "saved_is_draft saved"
  proof -
    have "is_draft v" if "saved = Some (JSON_text v)" for v
      using that \<open>saved_is_draft saved\<close> by (simp add: saved_is_draft_def JSON_parse_def)
    then show ?thesis
      by (intro stable_run_events stable_mount[OF closed_is_draft assms] closed_is_draft)
  qed
  have c1: "written (\<lambda>v. True) ?S" using a by (simp add: holds_throughout_def)
  have c2: "saved_is_draft saved \<longrightarrow> written is_draft ?S \<and> is_draft (content ?S)"
    using b by (simp add: holds_throughout_def)
  have cur: "autosave_current ?S" using a by (simp add: holds_throughout_def)
  have c3: "\<forall>tm \<in> set (timers ?S). is_autosave tm \<longrightarrow>
        setItem_calls (fire innerHTML tm ?S) =
          setItem_calls ?S @ [(js ''draftNote_content'', JSON_text (content ?S))]"
    using fire_autosave_current[OF cur, of _ innerHTML]
    by (simp add: STORAGE_KEY_def JSON_stringify_def)
  have c4: "\<not> is_autosave tm' \<longrightarrow> setItem_calls (fire innerHTML tm' st) = setItem_calls st"
    using fire_other_does_not_write by blast
  have c5: "(\<forall>d. e \<noteq> Wait d) \<longrightarrow> setItem_calls (step innerHTML e st) = setItem_calls st"
    using step_does_not_write by blast
  have c6: "editorRef st = Some ed' \<longrightarrow>
        content (handleContentChange innerHTML False st)
          = spread_update (content st) (innerHTML (element ed')) (clock st) \<and>
        get_htmlContent (content (handleContentChange innerHTML False st))
          = Inr (Some (JString (innerHTML (element ed')))) \<and>
        map_of (own_properties (content (handleContentChange innerHTML False st))) (js ''timestamp'')
          = Some (JNumber (int (clock st))) \<and>
        (content st = draft_object c \<longrightarrow>
           content (handleContentChange innerHTML False st)
             = draft_object \<lparr>htmlContent = innerHTML (element ed'), timestamp = clock st\<rparr>)"
  proof
    assume e: "editorRef st = Some ed'"
    have k: "content (handleContentChange innerHTML False st)
          = spread_update (content st) (innerHTML (element ed')) (clock st)"
      using e by (simp add: handleContentChange_def Let_def setTimeout_def)
    show "content (handleContentChange innerHTML False st)
          = spread_update (content st) (innerHTML (element ed')) (clock st) \<and>
        get_htmlContent (content (handleContentChange innerHTML False st))
          = Inr (Some (JString (innerHTML (element ed')))) \<and>
        map_of (own_properties (content (handleContentChange innerHTML False st))) (js ''timestamp'')
          = Some (JNumber (int (clock st))) \<and>
        (content st = draft_object c \<longrightarrow>
           content (handleContentChange innerHTML False st)
             = draft_object \<lparr>htmlContent = innerHTML (element ed'), timestamp = clock st\<rparr>)"
      unfolding k using spread_update_reads spread_update_draft by simp
  qed
  have c7: "content st0 = (case saved of Some (JSON_text v) \<Rightarrow> v
                    | _ \<Rightarrow> draft_object \<lparr>htmlContent = [], timestamp = now\<rparr>)"
  proof -
    have i: "content (initial_app now ed) = draft_object \<lparr>htmlContent = [], timestamp = now\<rparr>"
      by (simp add: initial_app_def autosave_effect_def setTimeout_def)
    show ?thesis
    proof (cases saved)
      case None
      then show ?thesis using assms i by (simp add: mount_def)
    next
      case (Some item)
      show ?thesis
      proof (cases item)
        case (Other_text t)
        then show ?thesis using assms Some i
          by (auto simp: mount_def JSON_parse_def Let_def split: if_splits)
      next
        case (JSON_text v)
        then show ?thesis using assms Some
          by (auto simp: mount_def JSON_parse_def Let_def split: sum.splits option.splits if_splits)
      qed
    qed
  qed
  have c8: "setItem_calls (run_events innerHTML [Wait 1000] st0)
       = [(js ''draftNote_content'', JSON_text (content st0))]"
    using mount_first_write[OF assms, of innerHTML]
    by (simp add: STORAGE_KEY_def JSON_stringify_def)
  show ?thesis
    apply (intro conjI)
    apply (rule c1)
    apply (rule c2)
    apply (rule c3)
    apply (rule c4)
    apply (rule c5)
    apply (rule c6)
    apply (rule c7)
    apply (rule c8)
    done
qed

theorem stored_value_shape_witness:
  "mount (\<lambda>s. [TextNode s])
      (Some (JSON_text (draft_object \<lparr>htmlContent = js ''hi'', timestamp = 3\<rparr>))) 5
      \<lparr>element = ElementNode ''DIV'' [] no_metrics [], selection = None, focused = False\<rparr>
     = Some (setContent (draft_object \<lparr>htmlContent = js ''hi'', timestamp = 3\<rparr>)
               ((initial_app 5 \<lparr>element = ElementNode ''DIV'' [] no_metrics [], selection = None, focused = False\<rparr>)
                  \<lparr>editorRef := Some \<lparr>element = ElementNode ''DIV'' [] no_metrics [TextNode (js ''hi'')],
                                       selection = None, focused = False\<rparr>\<rparr>)) \<and>
   saved_is_draft (Some (JSON_text (draft_object \<lparr>htmlContent = js ''hi'', timestamp = 3\<rparr>))) \<and>
   written is_draft
     (run_events textContent
        [Edit \<lparr>element = ElementNode ''DIV'' [] no_metrics [TextNode (js ''hi!'')], selection = None, focused = True\<rparr>,
         Input, Wait 1000]
        (setContent (draft_object \<lparr>htmlContent = js ''hi'', timestamp = 3\<rparr>)
               ((initial_app 5 \<lparr>element = ElementNode ''DIV'' [] no_metrics [], selection = None, focused = False\<rparr>)
                  \<lparr>editorRef := Some \<lparr>element = ElementNode ''DIV'' [] no_metrics [TextNode (js ''hi'')],
                                       selection = None, focused = False\<rparr>\<rparr>))) \<and>
   setItem_calls
     (run_events textContent
        [Edit \<lparr>element = ElementNode ''DIV'' [] no_metrics [TextNode (js ''hi!'')], selection = None, focused = True\<rparr>,
         Input, Wait 1000]
        (setContent (draft_object \<lparr>htmlContent = js ''hi'', timestamp = 3\<rparr>)
               ((initial_app 5 \<lparr>element = ElementNode ''DIV'' [] no_metrics [], selection = None, focused = False\<rparr>)
                  \<lparr>editorRef := Some \<lparr>element = ElementNode ''DIV'' [] no_metrics [TextNode (js ''hi'')],
                                       selection = None, focused = False\<rparr>\<rparr>)))
     = [(js ''draftNote_content'',
         JSON_text (JObject [(js ''htmlContent'', JString (js ''hi!'')), (js ''timestamp'', JNumber 5)]))] \<and>
   setItem_calls
     (run_events textContent [Wait 1000]
        (setContent (draft_object \<lparr>htmlContent = js ''hi'', timestamp = 3\<rparr>)
               ((initial_app 5 \<lparr>element = ElementNode ''DIV'' [] no_metrics [], selection = None, focused = False\<rparr>)
                  \<lparr>editorRef := Some \<lparr>element = ElementNode ''DIV'' [] no_metrics [TextNode (js ''hi'')],
                                       selection = None, focused = False\<rparr>\<rparr>)))
     = [(js ''draftNote_content'',
         JSON_text (JObject [(js ''htmlContent'', JString (js ''hi'')), (js ''timestamp'', JNumber 3)]))] \<and>
   mount (\<lambda>s. [TextNode s])
      (Some (JSON_text (JObject [(js ''content'', JString (js ''x'')), (js ''timestamp'', JNumber 1)]))) 5
      \<lparr>element = ElementNode ''DIV'' [] no_metrics [], selection = None, focused = False\<rparr>
     = Some (setContent (JObject [(js ''content'', JString (js ''x'')), (js ''timestamp'', JNumber 1)])
               (initial_app 5 \<lparr>element = ElementNode ''DIV'' [] no_metrics [], selection = None, focused = False\<rparr>)) \<and>
   \<not> saved_is_draft
       (Some (JSON_text (JObject [(js ''content'', JString (js ''x'')), (js ''timestamp'', JNumber 1)]))) \<and>
   setItem_calls
     (run_events textContent [Wait 1000]
        (setContent (JObject [(js ''content'', JString (js ''x'')), (js ''timestamp'', JNumber 1)])
               (initial_app 5 \<lparr>element = ElementNode ''DIV'' [] no_metrics [], selection = None, focused = False\<rparr>)))
     = [(js ''draftNote_content'',
         JSON_text (JObject [(js ''content'', JString (js ''x'')), (js ''timestamp'', JNumber 1)]))] \<and>
   setItem_calls
     (run_events textContent
        [Edit \<lparr>element = ElementNode ''DIV'' [] no_metrics [TextNode (js ''hi!'')], selection = None, focused = True\<rparr>,
         Input, Wait 1000]
        (setContent (JObject [(js ''content'', JString (js ''x'')), (js ''timestamp'', JNumber 1)])
               (initial_app 5 \<lparr>element = ElementNode ''DIV'' [] no_metrics [], selection = None, focused = False\<rparr>)))
     = [(js ''draftNote_content'',
         JSON_text (JObject [(js ''content'', JString (js ''x'')), (js ''timestamp'', JNumber 5),
                             (js ''htmlContent'', JString (js ''hi!''))]))]"
proof -
  let ?E0 = "\<lparr>element = ElementNode ''DIV'' [] no_metrics [], selection = None, focused = False\<rparr>"
  let ?E1 = "\<lparr>element = ElementNode ''DIV'' [] no_metrics [TextNode (js ''hi!'')], selection = None, focused = True\<rparr>"
  let ?V = "draft_object \<lparr>htmlContent = js ''hi'', timestamp = 3\<rparr>"
  let ?F = "JObject [(js ''content'', JString (js ''x'')), (js ''timestamp'', JNumber 1)]"
  let ?p = "\<lambda>s :: jsstring. [TextNode s]"
  let ?st0 = "setContent ?V ((initial_app 5 ?E0)
      \<lparr>editorRef := Some \<lparr>element = ElementNode ''DIV'' [] no_metrics [TextNode (js ''hi'')],
                           selection = None, focused = False\<rparr>\<rparr>)"
  let ?sf = "setContent ?F (initial_app 5 ?E0)"
  let ?evs = "[Edit ?E1, Input, Wait 1000]"
  have hi: "js ''hi'' \<noteq> []" by (simp add: js_def)
  have m: "mount ?p (Some (JSON_text ?V)) 5 ?E0 = Some ?st0"
    using hi by (simp add: mount_def JSON_parse_def Let_def set_innerHTML_def)
  have gf: "get_htmlContent ?F = Inr None" by (simp add: get_htmlContent_def js_def)
  have mf: "mount ?p (Some (JSON_text ?F)) 5 ?E0 = Some ?sf"
    by (simp add: mount_def JSON_parse_def Let_def gf)
  have d: "saved_is_draft (Some (JSON_text ?V))" by (simp add: saved_is_draft_def JSON_parse_def)
  have nd: "\<not> saved_is_draft (Some (JSON_text ?F))"
    by (simp add: saved_is_draft_def JSON_parse_def is_draft_def js_def)
  note T = stored_value_shape[OF m, of textContent ?evs]
  note U = stored_value_shape[OF mf, of textContent ?evs]
  have w: "written is_draft (run_events textContent ?evs ?st0)" using T d by blast
  have c0: "content ?st0 = ?V" "content ?sf = ?F" by simp_all
  have f1: "setItem_calls (run_events textContent [Wait 1000] ?st0)
      = [(js ''draftNote_content'', JSON_text ?V)]"
    using T unfolding c0 by blast
  have f2: "setItem_calls (run_events textContent [Wait 1000] ?sf)
      = [(js ''draftNote_content'', JSON_text ?F)]"
    using U unfolding c0 by blast
  have r0: "setItem_calls (run_events textContent ?evs ?st0)
      = [(js ''draftNote_content'',
          JSON_text (draft_object \<lparr>htmlContent = js ''hi!'', timestamp = 5\<rparr>))]"
    by (simp add: initial_app_def setContent_def autosave_effect_def autosave_cleanup_def
        setTimeout_def clearTimeout_def onInput_def handleContentChange_def Let_def
        saveCursorPosition_def spread_update_draft fire_def run_task_def restoreCursorPosition_def
        STORAGE_KEY_def JSON_stringify_def)
  have r1: "setItem_calls (run_events textContent ?evs ?st0)
      = [(js ''draftNote_content'',
          JSON_text (JObject [(js ''htmlContent'', JString (js ''hi!'')), (js ''timestamp'', JNumber 5)]))]"
    using r0 by (simp add: draft_object_def)
  have sp: "spread_update ?F (js ''hi!'') 5
      = JObject [(js ''content'', JString (js ''x'')), (js ''timestamp'', JNumber 5),
                 (js ''htmlContent'', JString (js ''hi!''))]"
    by (simp add: spread_update_def own_properties_def set_property_def js_def)
  have r2: "setItem_calls (run_events textContent ?evs ?sf)
      = [(js ''draftNote_content'',
          JSON_text (JObject [(js ''content'', JString (js ''x'')), (js ''timestamp'', JNumber 5),
                              (js ''htmlContent'', JString (js ''hi!''))]))]"
    by (simp add: initial_app_def setContent_def autosave_effect_def autosave_cleanup_def
        setTimeout_def clearTimeout_def onInput_def handleContentChange_def Let_def
        saveCursorPosition_def sp fire_def run_task_def restoreCursorPosition_def
        STORAGE_KEY_def JSON_stringify_def)
  have f1': "setItem_calls (run_events textContent [Wait 1000] ?st0)
      = [(js ''draftNote_content'',
          JSON_text (JObject [(js ''htmlContent'', JString (js ''hi'')), (js ''timestamp'', JNumber 3)]))]"
    using f1 by (simp add: draft_object_def)
  show ?thesis
    apply (intro conjI)
    apply (rule m)
    apply (rule d)
    apply (rule w)
    apply (rule r1)
    apply (rule f1')
    apply (rule mf)
    apply (rule nd)
    apply (rule f2)
    apply (rule r2)
    done
qed

text \<open>
  C9 as the specification words it, with a field named \<open>content\<close>, fails: mounted with
  nothing stored, the component writes after 1000 ms the object with the fields
  \<open>htmlContent\<close> and \<open>timestamp\<close>.
\<close>

theorem stored_value_shape_counterexample:
  "mount (\<lambda>s. [TextNode s]) None 5 \<lparr>element = TextNode (js ''hi''), selection = None, focused = False\<rparr>
     = Some (initial_app 5 \<lparr>element = TextNode (js ''hi''), selection = None, focused = False\<rparr>) \<and>
   setItem_calls
     (run_events textContent [Wait 1000]
        (initial_app 5 \<lparr>element = TextNode (js ''hi''), selection = None, focused = False\<rparr>))
     = [(STORAGE_KEY,
         JSON_text (JObject [(js ''htmlContent'', JString []), (js ''timestamp'', JNumber 5)]))] \<and>
   spec_stored_value \<lparr>htmlContent = [], timestamp = 5\<rparr>
     = JObject [(js ''content'', JString []), (js ''timestamp'', JNumber 5)] \<and>
   setItem_calls
     (run_events textContent [Wait 1000]
        (initial_app 5 \<lparr>element = TextNode (js ''hi''), selection = None, focused = False\<rparr>))
     \<noteq> [(STORAGE_KEY, JSON_text (spec_stored_value \<lparr>htmlContent = [], timestamp = 5\<rparr>))]"
  by (simp add: mount_def fire_def run_task_def initial_app_def autosave_effect_def setTimeout_def
      JSON_stringify_def spec_stored_value_def draft_object_def js_def)

section \<open>Composition\<close>

text \<open>
  What the guard of \<open>handleContentChange\<close> does: a call that sees the flag set leaves
  the whole state as it is; for the \<open>onInput\<close> binding, which sees the flag of the
  state, any number of input events between \<open>compositionstart\<close> and \<open>compositionend\<close>
  change nothing. \<open>handleCompositionEnd\<close> clears the flag, does not touch the
  snapshot itself, and arms exactly one timer, of delay 0, whose callback replaces the
  snapshot once by the editor's markup at that time.
\<close>

lemma composition_guard:
  "handleContentChange innerHTML True st = st \<and>
   (isComposing st \<longrightarrow> onInput innerHTML st = st) \<and>
   (onInput innerHTML ^^ n) (handleCompositionStart st) = handleCompositionStart st \<and>
   isComposing (handleCompositionEnd st) = False \<and>
   content (handleCompositionEnd st) = content st \<and>
   timers (handleCompositionEnd st) =
     timers st @ [\<lparr>timer_id = next_timer st, due = clock st, task = UpdateContent\<rparr>] \<and>
   (editorRef st = Some ed \<longrightarrow>
      (\<exists>st'. run_task innerHTML UpdateContent st = Inr st' \<and>
             content st' = spread_update (content st) (innerHTML (element ed)) (clock st)))"
proof -
  have "isComposing (handleCompositionStart st)" by (simp add: handleCompositionStart_def)
  then have a: "(onInput innerHTML ^^ n) (handleCompositionStart st) = handleCompositionStart st"
    by (rule onInput_composing_funpow)
  have b: "timers (handleCompositionEnd st) =
     timers st @ [\<lparr>timer_id = next_timer st, due = clock st, task = UpdateContent\<rparr>]"
    "isComposing (handleCompositionEnd st) = False" "content (handleCompositionEnd st) = content st"
    by (simp_all add: handleCompositionEnd_def setTimeout_def)
  have c: "\<exists>st'. run_task innerHTML UpdateContent st = Inr st' \<and>
             content st' = spread_update (content st) (innerHTML (element ed)) (clock st)"
    if "editorRef st = Some ed"
    using that by (simp add: run_task_def)
  show ?thesis using handleContentChange_composing onInput_composing a b c by blast
qed

text \<open>
  C7. The guard has a gap. An image is pasted while no composition is in progress,
  so its \<open>reader.onload\<close> keeps the \<open>handleContentChange\<close> of a render whose
  \<open>isComposing\<close> is false. A composition starts before the image has been read. When
  the image arrives, \<open>reader.onload\<close> inserts it and calls that \<open>handleContentChange\<close>,
  which sees the old flag and replaces the snapshot although the composition is still
  in progress. An input event in the same state leaves the snapshot alone. The same
  happens with the delete button of a widget pasted before the composition. (The
  serialisation of the editor is here its text content.)
\<close>

theorem paste_during_composition_replaces_snapshot:
  "handlePaste
      (initial_app 7
         \<lparr>element = ElementNode ''DIV'' [] no_metrics [TextNode (js ''ni'')],
          selection = Some \<lparr>startContainer = Within [0], startOffset = 2,
                             endContainer = Within [0], endOffset = 2\<rparr>,
          focused = True\<rparr>) = Some False \<and>
   isComposing
     (run_events textContent [CompositionStart]
        (initial_app 7
           \<lparr>element = ElementNode ''DIV'' [] no_metrics [TextNode (js ''ni'')],
            selection = Some \<lparr>startContainer = Within [0], startOffset = 2,
                               endContainer = Within [0], endOffset = 2\<rparr>,
            focused = True\<rparr>)) \<and>
   content
     (run_events textContent [CompositionStart]
        (initial_app 7
           \<lparr>element = ElementNode ''DIV'' [] no_metrics [TextNode (js ''ni'')],
            selection = Some \<lparr>startContainer = Within [0], startOffset = 2,
                               endContainer = Within [0], endOffset = 2\<rparr>,
            focused = True\<rparr>))
     = draft_object \<lparr>htmlContent = [], timestamp = 7\<rparr> \<and>
   isComposing
     (run_events textContent
        [CompositionStart,
         ImageLoaded False (image_widget (js ''1a'') (js ''data:image/png;base64,aGk='') (js ''p'') no_metrics)]
        (initial_app 7
           \<lparr>element = ElementNode ''DIV'' [] no_metrics [TextNode (js ''ni'')],
            selection = Some \<lparr>startContainer = Within [0], startOffset = 2,
                               endContainer = Within [0], endOffset = 2\<rparr>,
            focused = True\<rparr>)) \<and>
   content
     (run_events textContent
        [CompositionStart,
         ImageLoaded False (image_widget (js ''1a'') (js ''data:image/png;base64,aGk='') (js ''p'') no_metrics)]
        (initial_app 7
           \<lparr>element = ElementNode ''DIV'' [] no_metrics [TextNode (js ''ni'')],
            selection = Some \<lparr>startContainer = Within [0], startOffset = 2,
                               endContainer = Within [0], endOffset = 2\<rparr>,
            focused = True\<rparr>))
     = draft_object \<lparr>htmlContent = js ''ni'' @ [0x00D7, 0x200B, 0x0020], timestamp = 7\<rparr> \<and>
   content
     (run_events textContent [CompositionStart, Input]
        (initial_app 7
           \<lparr>element = ElementNode ''DIV'' [] no_metrics [TextNode (js ''ni'')],
            selection = Some \<lparr>startContainer = Within [0], startOffset = 2,
                               endContainer = Within [0], endOffset = 2\<rparr>,
            focused = True\<rparr>))
     = draft_object \<lparr>htmlContent = [], timestamp = 7\<rparr> \<and>
   content
     (run_events textContent [CompositionStart, Kept_handleContentChange False]
        (initial_app 7
           \<lparr>element = ElementNode ''DIV'' [] no_metrics [TextNode (js ''ni'')],
            selection = Some \<lparr>startContainer = Within [0], startOffset = 2,
                               endContainer = Within [0], endOffset = 2\<rparr>,
            focused = True\<rparr>))
     = draft_object \<lparr>htmlContent = js ''ni'', timestamp = 7\<rparr>"
proof -
  let ?ed = "\<lparr>element = ElementNode ''DIV'' [] no_metrics [TextNode (js ''ni'')],
            selection = Some \<lparr>startContainer = Within [0], startOffset = 2,
                               endContainer = Within [0], endOffset = 2\<rparr>,
            focused = True\<rparr>"
  let ?W = "image_widget (js ''1a'') (js ''data:image/png;base64,aGk='') (js ''p'') no_metrics"
  let ?st0 = "initial_app 7 ?ed"
  let ?st1 = "handleCompositionStart ?st0"
  let ?ed' = "\<lparr>element = ElementNode ''DIV'' [] no_metrics
                  [TextNode (js ''ni''), ?W, TextNode [0x200B], TextNode [0x0020], TextNode []],
            selection = Some \<lparr>startContainer = Within [], startOffset = 4,
                               endContainer = Within [], endOffset = 4\<rparr>,
            focused = True\<rparr>"
  have f0: "editorRef ?st0 = Some ?ed" "isComposing ?st0 = False"
    "content ?st0 = draft_object \<lparr>htmlContent = [], timestamp = 7\<rparr>" "clock ?st0 = 7"
    by (simp_all add: initial_app_def autosave_effect_def setTimeout_def)
  have f1: "editorRef ?st1 = Some ?ed" "isComposing ?st1"
    "content ?st1 = draft_object \<lparr>htmlContent = [], timestamp = 7\<rparr>" "clock ?st1 = 7"
    using f0 by (simp_all add: handleCompositionStart_def)
  have p: "handlePaste ?st0 = Some False" using f0 by (simp add: handlePaste_def)
  have ins: "insert_image ?W ?ed = Inr ?ed'"
    by (simp add: insert_image_def deleteContents_def collapsed_def insertNode_def
        setStartAfter_def setStart_def container_length_def moved_end_def shift_boundary_def
        addRange_def removeAllRanges_def collapse_def ZWSP_def SPACE_def js_def)
  let ?s2 = "snd (setTimeout FocusEditor 10 (?st1\<lparr>editorRef := Some ?ed'\<rparr>))"
  have r: "reader_onload textContent False ?W ?st1
      = Inr (showNotification msg_image_added Success (handleContentChange textContent False ?s2))"
    using f1(1) ins by (simp add: reader_onload_def Let_def)
  have s2: "editorRef ?s2 = Some ?ed'" "content ?s2 = draft_object \<lparr>htmlContent = [], timestamp = 7\<rparr>"
    "clock ?s2 = 7" "isComposing ?s2"
    using f1 by (simp_all add: setTimeout_def)
  have tc: "textContent (element ?ed') = js ''ni'' @ [0x00D7, 0x200B, 0x0020]"
    by (simp add: image_widget_def js_def)
  have c2: "content (handleContentChange textContent False ?s2)
      = draft_object \<lparr>htmlContent = js ''ni'' @ [0x00D7, 0x200B, 0x0020], timestamp = 7\<rparr>"
    using s2 tc by (simp add: handleContentChange_def Let_def setTimeout_def spread_update_draft)
  have i2: "isComposing (handleContentChange textContent False ?s2)"
    using s2 by (simp add: handleContentChange_def Let_def setTimeout_def)
  have a: "isComposing (run_events textContent [CompositionStart, ImageLoaded False ?W] ?st0)"
    using r i2 by (simp add: showNotification_def setTimeout_def)
  have b: "content (run_events textContent [CompositionStart, ImageLoaded False ?W] ?st0)
      = draft_object \<lparr>htmlContent = js ''ni'' @ [0x00D7, 0x200B, 0x0020], timestamp = 7\<rparr>"
    using r c2 by (simp add: showNotification_def setTimeout_def)
  have c: "content (run_events textContent [CompositionStart, Input] ?st0)
      = draft_object \<lparr>htmlContent = [], timestamp = 7\<rparr>"
    using f1 by (simp add: onInput_composing)
  have tn: "textContent (element ?ed) = js ''ni''" by simp
  have d: "content (run_events textContent [CompositionStart, Kept_handleContentChange False] ?st0)
      = draft_object \<lparr>htmlContent = js ''ni'', timestamp = 7\<rparr>"
    using f1 tn by (simp add: handleContentChange_def Let_def setTimeout_def spread_update_draft)
  show ?thesis
    apply (intro conjI)
    apply (rule p)
    apply (use f1 in simp)
    apply (use f1 in simp)
    apply (rule a)
    apply (rule b)
    apply (rule c)
    apply (rule d)
    done
qed

end
